theory Spec2Isabelle
  imports Main "HOL-Library.AList"
begin

section \<open>Python values and dictionaries\<close>

text \<open>
  The engine of \<^verbatim>\<open>app/engine.py\<close> moves values of type \<^verbatim>\<open>Any\<close> around and inspects
  them in four ways only: is the value \<^verbatim>\<open>None\<close>, is it a \<^verbatim>\<open>dict\<close>, is it truthy, can it
  be used as a dictionary key. \<open>pyval\<close> is the JSON-like fragment of Python values on
  which these four questions are answered as Python answers them.
\<close>

datatype pyval =
    PNone
  | PBool bool
  | PInt int
  | PStr string
  | PList "pyval list"
  | PDict "(string \<times> pyval) list"

text \<open>
  A \<^verbatim>\<open>Dict[str, Any]\<close> whose iteration order can be observed is an association list in
  insertion order: \<open>map_of\<close> reads a key, \<open>AList.update\<close> is \<^verbatim>\<open>d[k] = v\<close>,
  \<open>AList.delete\<close> removes a key.
\<close>

type_synonym pystate = "(string \<times> pyval) list"

text \<open>\<^verbatim>\<open>d.get(k, default)\<close>\<close>

definition dict_get :: "pystate \<Rightarrow> string \<Rightarrow> pyval \<Rightarrow> pyval" where
  "dict_get d k dflt = (case map_of d k of None \<Rightarrow> dflt | Some v \<Rightarrow> v)"

text \<open>\<^verbatim>\<open>k in d\<close>\<close>

definition has_key :: "pystate \<Rightarrow> string \<Rightarrow> bool" where
  "has_key d k = (k \<in> set (map fst d))"

text \<open>Python truthiness, as \<^verbatim>\<open>if not tool_name\<close> tests it.\<close>

fun truthy :: "pyval \<Rightarrow> bool" where
  "truthy PNone = False"
| "truthy (PBool b) = b"
| "truthy (PInt n) = (n \<noteq> 0)"
| "truthy (PStr s) = (s \<noteq> [])"
| "truthy (PList xs) = (xs \<noteq> [])"
| "truthy (PDict d) = (d \<noteq> [])"

text \<open>Lists and dicts cannot be dictionary keys: using one raises \<^verbatim>\<open>TypeError\<close>.\<close>

fun hashable :: "pyval \<Rightarrow> bool" where
  "hashable (PList xs) = False"
| "hashable (PDict d) = False"
| "hashable v = True"

section \<open>Exceptions\<close>

text \<open>
  Every \<^verbatim>\<open>raise\<close> of the engine, and every exception a dictionary operation of the engine
  can raise, is a constructor. The message of an exception is kept as its structured
  content rather than as Python's rendering of it.
\<close>

datatype pyexc =
    ValueError_start_node
      \<comment> \<open>\<^verbatim>\<open>ValueError("start_node must be one of nodes_config keys")\<close>\<close>
  | ValueError_missing_tool_name string
      \<comment> \<open>\<^verbatim>\<open>ValueError(f"Node '{node_id}' missing 'tool_name'")\<close>\<close>
  | KeyError_tool pyval
      \<comment> \<open>\<^verbatim>\<open>KeyError(f"Tool '{name}' not registered")\<close>\<close>
  | KeyError_graph string
      \<comment> \<open>\<^verbatim>\<open>KeyError(f"Graph '{graph_id}' not found")\<close>\<close>
  | KeyError_run string
      \<comment> \<open>\<^verbatim>\<open>KeyError(f"Run '{run_id}' not found")\<close>\<close>
  | KeyError_lookup pyval
      \<comment> \<open>\<^verbatim>\<open>graph.nodes[key]\<close> on a missing key\<close>
  | TypeError_unhashable pyval
      \<comment> \<open>a list or dict used as a dictionary key\<close>
  | TypeError_not_dict pyval pyval
      \<comment> \<open>\<^verbatim>\<open>TypeError(f"Tool '{node.tool_name}' must return a dict, got {type(new_state)}")\<close>\<close>
  | ToolException string
      \<comment> \<open>an \<^verbatim>\<open>Exception\<close> raised inside a tool, with its \<^verbatim>\<open>str()\<close>\<close>
  | BaseException_tool string
      \<comment> \<open>a \<^verbatim>\<open>BaseException\<close> that is not an \<^verbatim>\<open>Exception\<close>, raised inside a tool
          (\<^verbatim>\<open>asyncio.CancelledError\<close>, \<^verbatim>\<open>KeyboardInterrupt\<close>, \<^verbatim>\<open>SystemExit\<close>), with its \<^verbatim>\<open>str()\<close>\<close>

datatype exc_class = ValueError | KeyError | TypeError | Exception | BaseException

fun class_of :: "pyexc \<Rightarrow> exc_class" where
  "class_of ValueError_start_node = ValueError"
| "class_of (ValueError_missing_tool_name n) = ValueError"
| "class_of (KeyError_tool v) = KeyError"
| "class_of (KeyError_graph g) = KeyError"
| "class_of (KeyError_run r) = KeyError"
| "class_of (KeyError_lookup v) = KeyError"
| "class_of (TypeError_unhashable v) = TypeError"
| "class_of (TypeError_not_dict n v) = TypeError"
| "class_of (ToolException m) = Exception"
| "class_of (BaseException_tool m) = BaseException"

text \<open>
  What \<^verbatim>\<open>except Exception\<close> catches: \<^verbatim>\<open>ValueError\<close>, \<^verbatim>\<open>KeyError\<close> and \<^verbatim>\<open>TypeError\<close> derive from
  \<^verbatim>\<open>Exception\<close>; a bare \<^verbatim>\<open>BaseException\<close> does not and passes the handler.
\<close>

definition is_Exception :: "pyexc \<Rightarrow> bool" where
  "is_Exception e = (class_of e \<noteq> BaseException)"

section \<open>Tools and the tool registry\<close>

text \<open>
  A tool is called as \<^verbatim>\<open>await tool(run.state)\<close>: it receives the run's own dictionary, not
  a copy, and may change it in place before it returns or raises (the tools of
  \<^verbatim>\<open>app/workflows/code_review.py\<close> all assign into their argument and return it).
  The outcome of a call therefore carries the contents of the argument dictionary when
  the call ends, and then either the \<^verbatim>\<open>str()\<close> of the exception raised or the value
  returned. A tool that returns its argument returns \<open>PDict\<close> of the same contents.
  \<open>Raises\<close> is an exception of class \<^verbatim>\<open>Exception\<close>; \<open>RaisesBase\<close> is one that derives from
  \<^verbatim>\<open>BaseException\<close> only, as the cancellation of the awaited call does.
\<close>

datatype tool_outcome =
    Raises pystate string
  | RaisesBase pystate string
  | Returns pystate pyval

type_synonym ToolFn = "pystate \<Rightarrow> tool_outcome"

type_synonym ToolRegistry = "string \<rightharpoonup> ToolFn"

text \<open>\<^verbatim>\<open>ToolRegistry.register\<close>: wrapping a synchronous function changes nothing once awaited.\<close>

definition register :: "ToolRegistry \<Rightarrow> string \<Rightarrow> ToolFn \<Rightarrow> ToolRegistry" where
  "register tools name fn = tools(name \<mapsto> fn)"

text \<open>
  \<^verbatim>\<open>ToolRegistry.get\<close>. The registry's keys are strings; \<^verbatim>\<open>name not in self._tools\<close>
  raises for an unhashable name and is true for every other name that is not a
  registered string.
\<close>

definition registry_get :: "ToolRegistry \<Rightarrow> pyval \<Rightarrow> pyexc + ToolFn" where
  "registry_get tools name =
     (if \<not> hashable name then Inl (TypeError_unhashable name)
      else case name of
        PStr s \<Rightarrow> (case tools s of None \<Rightarrow> Inl (KeyError_tool name) | Some fn \<Rightarrow> Inr fn)
      | _ \<Rightarrow> Inl (KeyError_tool name))"

section \<open>Data model\<close>

record Node =
  id_n :: string
  tool_name :: pyval

record StepLog =
  step_index :: int
  node_id :: pyval
  state_snapshot :: pystate

record Graph =
  id_g :: string
  name :: string
  nodes :: "string \<rightharpoonup> Node"
  edges :: "string \<rightharpoonup> string option"
  start_node :: string
  max_steps :: int

datatype Status = Running | Completed | Failed

text \<open>
  \<open>error\<close> holds a string in the source: either the literal
  \<^verbatim>\<open>"Max steps exceeded (possible infinite loop)"\<close> or \<^verbatim>\<open>str(exc)\<close> of the exception caught.
\<close>

datatype err_text = Max_steps_exceeded | Str pyexc

record GraphRun =
  id_r :: string
  graph_id :: string
  status :: Status
  current_node :: pyval
  state :: pystate
  log :: "StepLog list"
  error :: "err_text option"

record GraphEngine =
  tool_registry :: ToolRegistry
  graphs :: "string \<rightharpoonup> Graph"
  runs :: "string \<rightharpoonup> GraphRun"

text \<open>\<^verbatim>\<open>GraphEngine.__init__\<close>\<close>

definition new_engine :: "ToolRegistry \<Rightarrow> GraphEngine" where
  "new_engine reg = \<lparr>tool_registry = reg, graphs = Map.empty, runs = Map.empty\<rparr>"

section \<open>Graph construction\<close>

text \<open>
  The loop of \<^verbatim>\<open>create_graph\<close> over \<^verbatim>\<open>nodes_config.items()\<close>, in insertion order;
  \<open>built\<close> is the dictionary \<^verbatim>\<open>nodes\<close> so far, \<open>nid\<close> and \<open>tname\<close> are \<^verbatim>\<open>node_id\<close> and
  \<^verbatim>\<open>tool_name\<close>.
\<close>

fun build_nodes ::
  "ToolRegistry \<Rightarrow> (string \<times> pystate) list \<Rightarrow> (string \<rightharpoonup> Node) \<Rightarrow> pyexc + (string \<rightharpoonup> Node)"
where
  "build_nodes reg [] built = Inr built"
| "build_nodes reg ((nid, cfg) # rest) built =
     (let tname = dict_get cfg ''tool_name'' PNone in
      if \<not> truthy tname then Inl (ValueError_missing_tool_name nid)
      else case registry_get reg tname of
        Inl e \<Rightarrow> Inl e
      | Inr fn \<Rightarrow>
          build_nodes reg rest (built(nid \<mapsto> \<lparr>id_n = nid, tool_name = tname\<rparr>)))"

text \<open>
  \<^verbatim>\<open>create_graph\<close>, with \<open>gname\<close>, \<open>edge_map\<close>, \<open>start\<close> and \<open>limit\<close> for the arguments
  \<^verbatim>\<open>name\<close>, \<^verbatim>\<open>edges\<close>, \<^verbatim>\<open>start_node\<close> and \<^verbatim>\<open>max_steps\<close>. \<open>new_id\<close> is the string
  \<^verbatim>\<open>str(uuid.uuid4())\<close> drawn by the call. The
  result is the engine after the call and either the exception raised or the graph
  returned.
\<close>

definition create_graph ::
  "GraphEngine \<Rightarrow> string \<Rightarrow> (string \<times> pystate) list \<Rightarrow> (string \<rightharpoonup> string option) \<Rightarrow> string \<Rightarrow> int
     \<Rightarrow> string \<Rightarrow> GraphEngine \<times> (pyexc + Graph)"
where
  "create_graph eng gname nodes_config edge_map start limit new_id =
     (if start \<notin> set (map fst nodes_config) then (eng, Inl ValueError_start_node)
      else case build_nodes (tool_registry eng) nodes_config Map.empty of
        Inl e \<Rightarrow> (eng, Inl e)
      | Inr built \<Rightarrow>
          (let graph = \<lparr>id_g = new_id, name = gname, nodes = built, edges = edge_map,
                         start_node = start, max_steps = limit\<rparr>
           in (eng\<lparr>graphs := (graphs eng)(new_id \<mapsto> graph)\<rparr>, Inr graph)))"

section \<open>The run loop\<close>

text \<open>\<^verbatim>\<open>graph.nodes[current_node_id]\<close>\<close>

definition nodes_getitem :: "Graph \<Rightarrow> pyval \<Rightarrow> pyexc + Node" where
  "nodes_getitem graph key =
     (if \<not> hashable key then Inl (TypeError_unhashable key)
      else case key of
        PStr s \<Rightarrow> (case nodes graph s of None \<Rightarrow> Inl (KeyError_lookup key) | Some n \<Rightarrow> Inr n)
      | _ \<Rightarrow> Inl (KeyError_lookup key))"

text \<open>\<^verbatim>\<open>graph.edges.get(current_node_id)\<close>: a missing key and a stored \<^verbatim>\<open>None\<close> both give \<^verbatim>\<open>None\<close>.\<close>

definition edges_get :: "Graph \<Rightarrow> pyval \<Rightarrow> pyexc + pyval" where
  "edges_get graph key =
     (if \<not> hashable key then Inl (TypeError_unhashable key)
      else case key of
        PStr s \<Rightarrow> (case edges graph s of Some (Some t) \<Rightarrow> Inr (PStr t) | _ \<Rightarrow> Inr PNone)
      | _ \<Rightarrow> Inr PNone)"

text \<open>
  The body of the \<^verbatim>\<open>while\<close> loop of \<^verbatim>\<open>run_graph\<close> (lines 144 to 172), for the run record,
  \<^verbatim>\<open>current_node_id\<close> (\<open>cur\<close>) and \<^verbatim>\<open>step_index\<close> (\<open>idx\<close>) at its start. \<open>Inl\<close> is an exception leaving the
  body, with the run record as it is at that moment; \<open>Inr\<close> is the end of the body, with
  the run record and the next \<^verbatim>\<open>current_node_id\<close>. The snapshot \<^verbatim>\<open>dict(run.state)\<close> is a
  copy of the top level of the dictionary, so the \<^verbatim>\<open>pop\<close> that follows does not reach it
  and no later step adds or removes a key of it. Values nested in a snapshot stay shared
  with the state in the source, and a later tool can change them in place; that sharing
  is not modelled, and what is proved of the snapshots of runs in general is about their
  top-level keys.
\<close>

definition run_step ::
  "ToolRegistry \<Rightarrow> Graph \<Rightarrow> GraphRun \<Rightarrow> pyval \<Rightarrow> int \<Rightarrow> (GraphRun \<times> pyexc) + (GraphRun \<times> pyval)"
where
  "run_step reg graph run0 cur idx =
     (let run1 = run0\<lparr>current_node := cur\<rparr> in
      case nodes_getitem graph cur of
        Inl e \<Rightarrow> Inl (run1, e)
      | Inr node \<Rightarrow>
         (case registry_get reg (tool_name node) of
            Inl e \<Rightarrow> Inl (run1, e)
          | Inr tool \<Rightarrow>
             (case tool (state run1) of
                Raises mutated msg \<Rightarrow> Inl (run1\<lparr>state := mutated\<rparr>, ToolException msg)
              | RaisesBase mutated msg \<Rightarrow>
                  Inl (run1\<lparr>state := mutated\<rparr>, BaseException_tool msg)
              | Returns mutated new_state \<Rightarrow>
                 (case new_state of
                    PDict d \<Rightarrow>
                      (let run2 = run1\<lparr>state := d\<rparr>;
                           run3 = run2\<lparr>log := log run2 @
                                    [\<lparr>step_index = idx, node_id = cur,
                                      state_snapshot = state run2\<rparr>]\<rparr>;
                           override = dict_get (state run3) ''_next_node'' PNone;
                           run4 = run3\<lparr>state := AList.delete ''_next_node'' (state run3)\<rparr>
                       in if override \<noteq> PNone then Inr (run4, override)
                          else (case edges_get graph cur of
                                  Inl e \<Rightarrow> Inl (run4, e)
                                | Inr nxt \<Rightarrow> Inr (run4, nxt)))
                  | _ \<Rightarrow> Inl (run1\<lparr>state := mutated\<rparr>,
                              TypeError_not_dict (tool_name node) new_state)))))"

text \<open>
  How the \<^verbatim>\<open>while\<close> loop is left: by its condition becoming false, with the final
  \<^verbatim>\<open>step_index\<close>, or by an exception of any class, with the \<^verbatim>\<open>step_index\<close> of the step
  that raised.
\<close>

datatype loop_end =
    Finished GraphRun int
  | Raised GraphRun int pyexc

function run_loop :: "ToolRegistry \<Rightarrow> Graph \<Rightarrow> GraphRun \<Rightarrow> pyval \<Rightarrow> int \<Rightarrow> loop_end" where
  "run_loop reg graph run cur idx =
     (if cur \<noteq> PNone \<and> idx < max_steps graph then
        (case run_step reg graph run cur idx of
           Inl (run', e) \<Rightarrow> Raised run' idx e
         | Inr (run', nxt) \<Rightarrow> run_loop reg graph run' nxt (idx + 1))
      else Finished run idx)"
  by pat_completeness auto
termination
  by (relation "measure (\<lambda>(reg, graph, run, cur, i). nat (max_steps graph - i))") auto

text \<open>
  The run record after the \<^verbatim>\<open>try\<close> statement: the code after the loop (lines 176 to 181)
  when the loop is left normally, the handler (lines 183 to 185) when an exception of
  class \<^verbatim>\<open>Exception\<close> leaves it. An exception the handler does not catch leaves the record
  as it is at the \<^verbatim>\<open>raise\<close>.
\<close>

definition finish :: "Graph \<Rightarrow> loop_end \<Rightarrow> GraphRun" where
  "finish graph le =
     (case le of
        Finished run idx \<Rightarrow>
          (if idx \<ge> max_steps graph
           then run\<lparr>status := Failed, error := Some Max_steps_exceeded\<rparr>
           else run\<lparr>status := Completed, current_node := PNone\<rparr>)
      | Raised run idx exc \<Rightarrow>
          (if is_Exception exc then run\<lparr>status := Failed, error := Some (Str exc)\<rparr>
           else run))"

text \<open>
  How the \<^verbatim>\<open>try\<close> statement is left: \<open>Inl\<close> is an exception that passes the handler and
  propagates to the caller of \<^verbatim>\<open>run_graph\<close>; \<open>Inr\<close> is the run record that line 187 returns.
\<close>

definition outcome :: "Graph \<Rightarrow> loop_end \<Rightarrow> pyexc + GraphRun" where
  "outcome graph le =
     (case le of
        Finished run idx \<Rightarrow> Inr (finish graph le)
      | Raised run idx exc \<Rightarrow> (if is_Exception exc then Inr (finish graph le) else Inl exc))"

text \<open>The run record \<^verbatim>\<open>run_graph\<close> creates; \<^verbatim>\<open>dict(initial_state)\<close> copies the top level.\<close>

definition new_run :: "Graph \<Rightarrow> string \<Rightarrow> string \<Rightarrow> pystate \<Rightarrow> GraphRun" where
  "new_run graph gid run_id initial_state =
     \<lparr>id_r = run_id, graph_id = gid, status = Running,
      current_node = PStr (start_node graph), state = initial_state, log = [], error = None\<rparr>"

text \<open>
  \<^verbatim>\<open>run_graph\<close>. \<open>run_id\<close> is the string \<^verbatim>\<open>str(uuid.uuid4())\<close> drawn by the call. The run
  record is put into \<^verbatim>\<open>self.runs\<close> before the loop; the loop then changes that same
  object, so when the call returns the stored record is the returned one, and when the
  call raises out of the loop the stored record is the one the \<^verbatim>\<open>raise\<close> left.
\<close>

definition run_graph ::
  "GraphEngine \<Rightarrow> string \<Rightarrow> pystate \<Rightarrow> string \<Rightarrow> GraphEngine \<times> (pyexc + GraphRun)"
where
  "run_graph eng gid initial_state run_id =
     (case graphs eng gid of
        None \<Rightarrow> (eng, Inl (KeyError_graph gid))
      | Some graph \<Rightarrow>
          (let run = new_run graph gid run_id initial_state;
               eng1 = eng\<lparr>runs := (runs eng)(run_id \<mapsto> run)\<rparr>;
               le = run_loop (tool_registry eng1) graph run (PStr (start_node graph)) 0
           in (eng1\<lparr>runs := (runs eng1)(run_id \<mapsto> finish graph le)\<rparr>, outcome graph le)))"

text \<open>\<^verbatim>\<open>get_run\<close>\<close>

definition get_run :: "GraphEngine \<Rightarrow> string \<Rightarrow> pyexc + GraphRun" where
  "get_run eng run_id =
     (case runs eng run_id of None \<Rightarrow> Inl (KeyError_run run_id) | Some r \<Rightarrow> Inr r)"

section \<open>Naming the steps of a run\<close>

text \<open>
  The loop variables (run record, \<^verbatim>\<open>current_node_id\<close>, \<^verbatim>\<open>step_index\<close>) after \<open>n\<close> complete
  iterations of the \<^verbatim>\<open>while\<close> loop, when the loop makes that many: the guard and the
  body are those of \<open>run_loop\<close>. \<open>None\<close> when the loop stops or raises earlier.
\<close>

fun advance ::
  "ToolRegistry \<Rightarrow> Graph \<Rightarrow> nat \<Rightarrow> GraphRun \<times> pyval \<times> int \<Rightarrow> (GraphRun \<times> pyval \<times> int) option"
where
  "advance reg graph 0 c = Some c"
| "advance reg graph (Suc n) (run, cur, idx) =
     (if cur \<noteq> PNone \<and> idx < max_steps graph then
        (case run_step reg graph run cur idx of
           Inl (run', e) \<Rightarrow> None
         | Inr (run', nxt) \<Rightarrow> advance reg graph n (run', nxt, idx + 1))
      else None)"

text \<open>The loop variables with which \<^verbatim>\<open>run_graph\<close> enters its loop.\<close>

definition initial_config :: "Graph \<Rightarrow> string \<Rightarrow> string \<Rightarrow> pystate \<Rightarrow> GraphRun \<times> pyval \<times> int" where
  "initial_config graph gid run_id initial_state =
     (new_run graph gid run_id initial_state, PStr (start_node graph), 0)"

text \<open>The number of completed iterations: the value of \<^verbatim>\<open>step_index\<close> when the loop is left.\<close>

fun steps_executed :: "loop_end \<Rightarrow> int" where
  "steps_executed (Finished run idx) = idx"
| "steps_executed (Raised run idx e) = idx"

text \<open>The run record when the loop is left.\<close>

fun run_of :: "loop_end \<Rightarrow> GraphRun" where
  "run_of (Finished run idx) = run"
| "run_of (Raised run idx e) = run"

text \<open>The loop of a run of a stored graph, as \<^verbatim>\<open>run_graph\<close> executes it.\<close>

definition loop_of :: "GraphEngine \<Rightarrow> Graph \<Rightarrow> string \<Rightarrow> pystate \<Rightarrow> string \<Rightarrow> loop_end" where
  "loop_of eng graph gid initial_state run_id =
     run_loop (tool_registry eng) graph (new_run graph gid run_id initial_state)
       (PStr (start_node graph)) 0"

text \<open>
  The run record at the end of an iteration on node \<open>cur\<close> with \<^verbatim>\<open>step_index\<close> \<open>idx\<close> whose
  tool returned the dictionary \<open>d\<close>: the three assignments of lines 144 to 168.
\<close>

definition after_step :: "GraphRun \<Rightarrow> pyval \<Rightarrow> int \<Rightarrow> pystate \<Rightarrow> GraphRun" where
  "after_step run cur idx d =
     run\<lparr>current_node := cur, state := AList.delete ''_next_node'' d,
         log := log run @ [\<lparr>step_index = idx, node_id = cur, state_snapshot = d\<rparr>]\<rparr>"

text \<open>The target of the static edge of node \<open>s\<close>: \<^verbatim>\<open>graph.edges.get(s)\<close>.\<close>

definition static_next :: "Graph \<Rightarrow> string \<Rightarrow> pyval" where
  "static_next graph s = (case edges graph s of Some (Some t) \<Rightarrow> PStr t | _ \<Rightarrow> PNone)"


section \<open>Sequences of calls on one engine\<close>

datatype call =
    Create_graph string "(string \<times> pystate) list" "string \<rightharpoonup> string option" string int string
  | Run_graph string pystate string
  | Get_run string

fun exec_call :: "GraphEngine \<Rightarrow> call \<Rightarrow> GraphEngine" where
  "exec_call eng (Create_graph gname nodes_config edge_map start limit new_id) =
     fst (create_graph eng gname nodes_config edge_map start limit new_id)"
| "exec_call eng (Run_graph gid initial_state run_id) = fst (run_graph eng gid initial_state run_id)"
| "exec_call eng (Get_run run_id) = eng"

fun exec_calls :: "GraphEngine \<Rightarrow> call list \<Rightarrow> GraphEngine" where
  "exec_calls eng [] = eng"
| "exec_calls eng (c # cs) = exec_calls (exec_call eng c) cs"

text \<open>The ids of the runs created by a sequence of calls: those of the \<^verbatim>\<open>run_graph\<close> calls
  that found their graph.\<close>

fun created_runs :: "GraphEngine \<Rightarrow> call list \<Rightarrow> string set" where
  "created_runs eng [] = {}"
| "created_runs eng (c # cs) =
     (case c of
        Run_graph gid initial_state run_id \<Rightarrow>
          (if graphs eng gid = None then {} else {run_id})
      | _ \<Rightarrow> {}) \<union> created_runs (exec_call eng c) cs"

text \<open>The ids drawn by the \<^verbatim>\<open>run_graph\<close> calls of a sequence.\<close>

fun drawn_run_ids :: "call list \<Rightarrow> string set" where
  "drawn_run_ids [] = {}"
| "drawn_run_ids (c # cs) =
     (case c of Run_graph gid initial_state run_id \<Rightarrow> {run_id} | _ \<Rightarrow> {}) \<union> drawn_run_ids cs"

section \<open>Validity of a node configuration\<close>

text \<open>What \<^verbatim>\<open>create_graph\<close> checks of one entry of \<^verbatim>\<open>nodes_config\<close>.\<close>

definition lacks_tool_name :: "pystate \<Rightarrow> bool" where
  "lacks_tool_name cfg = (\<not> truthy (dict_get cfg ''tool_name'' PNone))"

definition names_registered_tool :: "ToolRegistry \<Rightarrow> pystate \<Rightarrow> bool" where
  "names_registered_tool reg cfg =
     (case dict_get cfg ''tool_name'' PNone of
        PStr s \<Rightarrow> s \<noteq> [] \<and> reg s \<noteq> None
      | _ \<Rightarrow> False)"

definition names_unregistered_tool :: "ToolRegistry \<Rightarrow> pystate \<Rightarrow> bool" where
  "names_unregistered_tool reg cfg =
     (case dict_get cfg ''tool_name'' PNone of
        PStr s \<Rightarrow> s \<noteq> [] \<and> reg s = None
      | _ \<Rightarrow> False)"

section \<open>Example tools, registry and graphs\<close>

text \<open>\<^verbatim>\<open>def identity(state): return state\<close>\<close>

definition tool_identity :: ToolFn where
  "tool_identity st = Returns st (PDict st)"

text \<open>\<^verbatim>\<open>def end(state): state["_next_node"] = None; return state\<close>, the last lines of
  \<^verbatim>\<open>suggest_improvements_tool\<close> when its loop condition is false.\<close>

definition tool_end :: ToolFn where
  "tool_end st = (let st' = AList.update ''_next_node'' PNone st in Returns st' (PDict st'))"

text \<open>\<^verbatim>\<open>def goto(state): state["_next_node"] = target; return state\<close>\<close>

definition tool_goto :: "string \<Rightarrow> ToolFn" where
  "tool_goto target st =
     (let st' = AList.update ''_next_node'' (PStr target) st in Returns st' (PDict st'))"

text \<open>\<^verbatim>\<open>def touch_then_raise(state): state["touched"] = True; raise RuntimeError("boom")\<close>\<close>

definition tool_touch_then_raise :: ToolFn where
  "tool_touch_then_raise st = Raises (AList.update ''touched'' (PBool True) st) ''boom''"

text \<open>\<^verbatim>\<open>async def cancelled(state): raise asyncio.CancelledError("cancelled")\<close>\<close>

definition tool_cancelled :: ToolFn where
  "tool_cancelled st = RaisesBase st ''cancelled''"

text \<open>\<^verbatim>\<open>def returns_int(state): return 7\<close>\<close>

definition tool_returns_int :: ToolFn where
  "tool_returns_int st = Returns st (PInt 7)"

definition example_registry :: ToolRegistry where
  "example_registry =
     register (register (register (register (register (register Map.empty
       ''identity'' tool_identity) ''end'' tool_end) ''goto_a'' (tool_goto ''a''))
       ''touch_then_raise'' tool_touch_then_raise) ''returns_int'' tool_returns_int)
       ''cancelled'' tool_cancelled"

text \<open>An engine with the example registry and one graph, built by \<^verbatim>\<open>create_graph\<close> under the
  id \<open>''G''\<close>.\<close>

definition example_engine ::
  "(string \<times> pystate) list \<Rightarrow> (string \<rightharpoonup> string option) \<Rightarrow> string \<Rightarrow> int \<Rightarrow> GraphEngine"
where
  "example_engine nodes_config edge_map start limit =
     fst (create_graph (new_engine example_registry) ''example'' nodes_config edge_map start
            limit ''G'')"

text \<open>Node \<open>a\<close> runs \<open>end\<close>, node \<open>b\<close> runs \<open>identity\<close>, with the static edge from \<open>a\<close> to \<open>b\<close>.\<close>

definition engine_end_then_b :: GraphEngine where
  "engine_end_then_b =
     example_engine
       [(''a'', [(''tool_name'', PStr ''end'')]), (''b'', [(''tool_name'', PStr ''identity'')])]
       [''a'' \<mapsto> Some ''b''] ''a'' 10"

text \<open>One node \<open>a\<close> running \<open>tool\<close>, no edge, step budget \<open>limit\<close>.\<close>

definition engine_single :: "string \<Rightarrow> int \<Rightarrow> GraphEngine" where
  "engine_single tool limit =
     example_engine [(''a'', [(''tool_name'', PStr tool)])] Map.empty ''a'' limit"

text \<open>Node \<open>a\<close> runs \<open>identity\<close>, node \<open>b\<close> runs \<open>tool\<close>, with the static edge from \<open>a\<close> to \<open>b\<close>.\<close>

definition engine_identity_then :: "string \<Rightarrow> GraphEngine" where
  "engine_identity_then tool =
     example_engine
       [(''a'', [(''tool_name'', PStr ''identity'')]), (''b'', [(''tool_name'', PStr tool)])]
       [''a'' \<mapsto> Some ''b''] ''a'' 10"

text \<open>The graph that \<open>engine_end_then_b\<close> stores under \<open>''G''\<close>.\<close>

definition graph_end_then_b :: Graph where
  "graph_end_then_b =
     \<lparr>id_g = ''G'', name = ''example'',
      nodes = [''a'' \<mapsto> \<lparr>id_n = ''a'', tool_name = PStr ''end''\<rparr>,
               ''b'' \<mapsto> \<lparr>id_n = ''b'', tool_name = PStr ''identity''\<rparr>],
      edges = [''a'' \<mapsto> Some ''b''], start_node = ''a'', max_steps = 10\<rparr>"

text \<open>The graph that \<open>engine_single tool limit\<close> stores under \<open>''G''\<close> when \<open>tool\<close> is
  registered.\<close>

definition graph_single :: "string \<Rightarrow> int \<Rightarrow> Graph" where
  "graph_single tool limit =
     \<lparr>id_g = ''G'', name = ''example'',
      nodes = [''a'' \<mapsto> \<lparr>id_n = ''a'', tool_name = PStr tool\<rparr>],
      edges = Map.empty, start_node = ''a'', max_steps = limit\<rparr>"

text \<open>The graph that \<open>engine_identity_then tool\<close> stores under \<open>''G''\<close> when \<open>tool\<close> is
  registered.\<close>

definition graph_identity_then :: "string \<Rightarrow> Graph" where
  "graph_identity_then tool =
     \<lparr>id_g = ''G'', name = ''example'',
      nodes = [''a'' \<mapsto> \<lparr>id_n = ''a'', tool_name = PStr ''identity''\<rparr>,
               ''b'' \<mapsto> \<lparr>id_n = ''b'', tool_name = PStr tool\<rparr>],
      edges = [''a'' \<mapsto> Some ''b''], start_node = ''a'', max_steps = 10\<rparr>"

lemmas example_defs =
  example_engine_def engine_end_then_b_def engine_single_def engine_identity_then_def
  example_registry_def tool_identity_def tool_end_def tool_goto_def tool_touch_then_raise_def
  tool_returns_int_def tool_cancelled_def graph_end_then_b_def graph_single_def
  graph_identity_then_def

lemmas engine_defs =
  run_graph_def create_graph_def new_engine_def register_def registry_get_def
  nodes_getitem_def edges_get_def run_step_def finish_def outcome_def is_Exception_def
  new_run_def dict_get_def get_run_def after_step_def static_next_def Let_def

section \<open>One iteration of the loop\<close>

declare run_loop.simps [simp del]

lemma nodes_getitem_Inr:
  "nodes_getitem g cur = Inr node \<longleftrightarrow> (\<exists>s. cur = PStr s \<and> nodes g s = Some node)"
  by (cases cur) (auto simp: nodes_getitem_def split: option.splits)

lemma edges_get_PStr:
  "edges_get g (PStr s) = Inr (case edges g s of Some (Some t) \<Rightarrow> PStr t | _ \<Rightarrow> PNone)"
  by (simp add: edges_get_def split: option.splits)

lemma run_step_Inr:
  assumes "run_step reg g run cur i = Inr (run', nxt)"
  shows "\<exists>s node tool m d.
           cur = PStr s \<and> nodes g s = Some node \<and> registry_get reg (tool_name node) = Inr tool \<and>
           tool (state run) = Returns m (PDict d) \<and>
           run' = run\<lparr>current_node := cur, state := AList.delete ''_next_node'' d,
                      log := log run @ [\<lparr>step_index = i, node_id = cur, state_snapshot = d\<rparr>]\<rparr> \<and>
           nxt = (if dict_get d ''_next_node'' PNone \<noteq> PNone then dict_get d ''_next_node'' PNone
                  else case edges g s of Some (Some t) \<Rightarrow> PStr t | _ \<Rightarrow> PNone)"
proof -
  from assms obtain node where n: "nodes_getitem g cur = Inr node"
    by (auto simp: run_step_def Let_def split: sum.splits)
  then obtain s where s: "cur = PStr s" "nodes g s = Some node"
    by (auto simp: nodes_getitem_Inr)
  from assms n obtain tool where t: "registry_get reg (tool_name node) = Inr tool"
    by (auto simp: run_step_def Let_def split: sum.splits)
  from assms n t obtain m d where r: "tool (state run) = Returns m (PDict d)"
    by (auto simp: run_step_def Let_def split: sum.splits tool_outcome.splits pyval.splits)
  from assms n t r s show ?thesis
    by (auto simp: run_step_def Let_def edges_get_PStr split: if_splits)
qed

lemma run_step_Inl_log:
  assumes "run_step reg g run cur i = Inl (run', e)"
  shows "log run' = log run \<and> status run' = status run \<and> error run' = error run
         \<and> id_r run' = id_r run \<and> graph_id run' = graph_id run \<and> current_node run' = cur"
proof -
  show ?thesis
  proof (cases "nodes_getitem g cur")
    case (Inl a)
    with assms show ?thesis by (auto simp: run_step_def Let_def)
  next
    case (Inr node)
    then obtain s where s: "cur = PStr s" by (auto simp: nodes_getitem_Inr)
    show ?thesis
    proof (cases "registry_get reg (tool_name node)")
      case (Inl a)
      with assms Inr show ?thesis by (auto simp: run_step_def Let_def)
    next
      case tool: (Inr tool)
      with assms Inr s show ?thesis
        by (auto simp: run_step_def Let_def edges_get_PStr
                 split: tool_outcome.splits pyval.splits if_splits)
    qed
  qed
qed

section \<open>The loop as a sequence of iterations\<close>

lemma advance_Suc_end:
  "advance reg g (Suc n) c =
     (case advance reg g n c of
        None \<Rightarrow> None
      | Some (run, cur, idx) \<Rightarrow>
          (if cur \<noteq> PNone \<and> idx < max_steps g then
             (case run_step reg g run cur idx of
                Inl (run', e) \<Rightarrow> None
              | Inr (run', nxt) \<Rightarrow> Some (run', nxt, idx + 1))
           else None))"
proof (induction n arbitrary: c)
  case 0
  show ?case by (cases c) (auto split: sum.splits)
next
  case (Suc n)
  obtain run cur idx where c: "c = (run, cur, idx)" by (cases c)
  show ?case
  proof (cases "cur \<noteq> PNone \<and> idx < max_steps g")
    case False
    then show ?thesis using c by auto
  next
    case True
    show ?thesis
    proof (cases "run_step reg g run cur idx")
      case (Inl a)
      then show ?thesis using c True by (auto split: prod.splits)
    next
      case (Inr b)
      obtain run' nxt where b: "b = (run', nxt)" by (cases b)
      have "advance reg g (Suc (Suc n)) c = advance reg g (Suc n) (run', nxt, idx + 1)"
        using c True Inr b by simp
      also have "\<dots> = (case advance reg g n (run', nxt, idx + 1) of
        None \<Rightarrow> None
      | Some (run, cur, idx) \<Rightarrow>
          (if cur \<noteq> PNone \<and> idx < max_steps g then
             (case run_step reg g run cur idx of
                Inl (run', e) \<Rightarrow> None
              | Inr (run', nxt) \<Rightarrow> Some (run', nxt, idx + 1))
           else None))"
        by (rule Suc.IH)
      also have "advance reg g n (run', nxt, idx + 1) = advance reg g (Suc n) c"
        using c True Inr b by simp
      finally show ?thesis .
    qed
  qed
qed

lemma advance_run_loop:
  "advance reg g n (run, cur, i) = Some (run', cur', i') \<Longrightarrow>
     run_loop reg g run cur i = run_loop reg g run' cur' i' \<and> i' = i + int n"
proof (induction n arbitrary: run cur i)
  case 0
  then show ?case by simp
next
  case (Suc n)
  from Suc.prems have guard: "cur \<noteq> PNone \<and> i < max_steps g"
    by (auto split: if_splits)
  with Suc.prems obtain r1 nxt where st: "run_step reg g run cur i = Inr (r1, nxt)"
    and rest: "advance reg g n (r1, nxt, i + 1) = Some (run', cur', i')"
    by (auto split: sum.splits)
  from Suc.IH[OF rest] have "run_loop reg g r1 nxt (i + 1) = run_loop reg g run' cur' i'"
    and "i' = i + 1 + int n" by auto
  moreover have "run_loop reg g run cur i = run_loop reg g r1 nxt (i + 1)"
    using guard st by (subst run_loop.simps) simp
  ultimately show ?case by simp
qed

text \<open>Every way of leaving the loop, in terms of the completed iterations.\<close>

lemma run_loop_cases:
  "\<exists>n run' cur' i'. advance reg g n (run, cur, i) = Some (run', cur', i') \<and>
      ((run_loop reg g run cur i = Finished run' i' \<and> \<not> (cur' \<noteq> PNone \<and> i' < max_steps g)) \<or>
       (\<exists>r e. run_loop reg g run cur i = Raised r i' e \<and> cur' \<noteq> PNone \<and> i' < max_steps g \<and>
              run_step reg g run' cur' i' = Inl (r, e)))"
proof (induction reg g run cur i rule: run_loop.induct)
  case (1 reg g run cur i)
  show ?case
  proof (cases "cur \<noteq> PNone \<and> i < max_steps g")
    case False
    then have "run_loop reg g run cur i = Finished run i"
      by (subst run_loop.simps) auto
    with False have "advance reg g 0 (run, cur, i) = Some (run, cur, i) \<and>
      ((run_loop reg g run cur i = Finished run i \<and> \<not> (cur \<noteq> PNone \<and> i < max_steps g)))"
      by simp
    then show ?thesis by blast
  next
    case True
    show ?thesis
    proof (cases "run_step reg g run cur i")
      case (Inl a)
      obtain r e where a: "a = (r, e)" by (cases a)
      have "run_loop reg g run cur i = Raised r i e"
        using True Inl a by (subst run_loop.simps) simp
      with True Inl a have "advance reg g 0 (run, cur, i) = Some (run, cur, i) \<and>
         (\<exists>r e. run_loop reg g run cur i = Raised r i e \<and> cur \<noteq> PNone \<and> i < max_steps g \<and>
              run_step reg g run cur i = Inl (r, e))"
        by simp
      then show ?thesis by blast
    next
      case (Inr b)
      obtain r1 nxt where b: "b = (r1, nxt)" by (cases b)
      have unf: "run_loop reg g run cur i = run_loop reg g r1 nxt (i + 1)"
        using True Inr b by (subst run_loop.simps) simp
      from "1.IH"[OF True Inr[unfolded b] refl]
      obtain n run' cur' i' where
        adv: "advance reg g n (r1, nxt, i + 1) = Some (run', cur', i')" and
        res: "(run_loop reg g r1 nxt (i + 1) = Finished run' i' \<and> \<not> (cur' \<noteq> PNone \<and> i' < max_steps g)) \<or>
       (\<exists>r e. run_loop reg g r1 nxt (i + 1) = Raised r i' e \<and> cur' \<noteq> PNone \<and> i' < max_steps g \<and>
              run_step reg g run' cur' i' = Inl (r, e))"
        by blast
      have "advance reg g (Suc n) (run, cur, i) = Some (run', cur', i')"
        using True Inr b adv by simp
      with res unf show ?thesis by metis
    qed
  qed
qed

lemma advance_Suc_last:
  assumes "advance reg g (Suc n) c = Some (run', cur', i')"
  shows "\<exists>run1 cur1 i1. advance reg g n c = Some (run1, cur1, i1) \<and> cur1 \<noteq> PNone \<and>
           i1 < max_steps g \<and> run_step reg g run1 cur1 i1 = Inr (run', cur') \<and> i' = i1 + 1"
  using assms unfolding advance_Suc_end
  by (auto split: option.splits prod.splits if_splits sum.splits)

lemma run_step_Inr_fields:
  assumes "run_step reg g run cur i = Inr (run', nxt)"
  shows "status run' = status run" "error run' = error run" "id_r run' = id_r run"
    "graph_id run' = graph_id run" "current_node run' = cur"
    "\<exists>d. log run' = log run @ [\<lparr>step_index = i, node_id = cur, state_snapshot = d\<rparr>] \<and>
          state run' = AList.delete ''_next_node'' d"
    "\<not> has_key (state run') ''_next_node''"
proof -
  from run_step_Inr[OF assms] obtain d where
    r: "run' = run\<lparr>current_node := cur, state := AList.delete ''_next_node'' d,
                      log := log run @ [\<lparr>step_index = i, node_id = cur, state_snapshot = d\<rparr>]\<rparr>"
    by blast
  show "status run' = status run" "error run' = error run" "id_r run' = id_r run"
    "graph_id run' = graph_id run" "current_node run' = cur"
    by (simp_all add: r)
  show "\<exists>d. log run' = log run @ [\<lparr>step_index = i, node_id = cur, state_snapshot = d\<rparr>] \<and>
          state run' = AList.delete ''_next_node'' d"
    by (simp add: r)
  show "\<not> has_key (state run') ''_next_node''"
    using AList.delete_notin_dom[of "''_next_node''" d] by (simp add: r has_key_def)
qed

lemma advance_fields:
  "advance reg g n (run, cur, i) = Some (run', cur', i') \<Longrightarrow>
     status run' = status run \<and> error run' = error run \<and> id_r run' = id_r run \<and>
     graph_id run' = graph_id run \<and> i' = i + int n"
proof (induction n arbitrary: run' cur' i')
  case 0
  then show ?case by simp
next
  case (Suc n)
  from advance_Suc_last[OF Suc.prems] obtain run1 cur1 i1 where
    a: "advance reg g n (run, cur, i) = Some (run1, cur1, i1)" and
    s: "run_step reg g run1 cur1 i1 = Inr (run', cur')" and i: "i' = i1 + 1"
    by blast
  from Suc.IH[OF a] run_step_Inr_fields(1-4)[OF s] i show ?case by simp
qed

lemma advance_log:
  "advance reg g n (run, cur, i) = Some (run', cur', i') \<Longrightarrow>
     \<exists>es. log run' = log run @ es \<and> map step_index es = map (\<lambda>k. i + int k) [0..<n]"
proof (induction n arbitrary: run' cur' i')
  case 0
  then show ?case by simp
next
  case (Suc n)
  from advance_Suc_last[OF Suc.prems] obtain run1 cur1 i1 where
    a: "advance reg g n (run, cur, i) = Some (run1, cur1, i1)" and
    s: "run_step reg g run1 cur1 i1 = Inr (run', cur')"
    by blast
  from advance_fields[OF a] have i1: "i1 = i + int n" by simp
  from Suc.IH[OF a] obtain es where
    es: "log run1 = log run @ es" "map step_index es = map (\<lambda>k. i + int k) [0..<n]"
    by blast
  from run_step_Inr_fields(6)[OF s] obtain d where
    l: "log run' = log run1 @ [\<lparr>step_index = i1, node_id = cur1, state_snapshot = d\<rparr>]"
    by blast
  have "log run' = log run @ (es @ [\<lparr>step_index = i1, node_id = cur1, state_snapshot = d\<rparr>])"
    using l es by simp
  moreover have "map step_index (es @ [\<lparr>step_index = i1, node_id = cur1, state_snapshot = d\<rparr>])
                 = map (\<lambda>k. i + int k) [0..<Suc n]"
    using es i1 by simp
  ultimately show ?case by blast
qed

lemma advance_pos:
  assumes "advance reg g n (run, cur, i) = Some (run', cur', i')" and "0 < n"
  shows "i' \<le> max_steps g \<and> \<not> has_key (state run') ''_next_node''"
proof -
  from assms(2) obtain m where n: "n = Suc m" by (cases n) auto
  from advance_Suc_last[OF assms(1)[unfolded n]] obtain run1 cur1 i1 where
    g: "i1 < max_steps g" and s: "run_step reg g run1 cur1 i1 = Inr (run', cur')" and i: "i' = i1 + 1"
    by blast
  from g i run_step_Inr_fields(7)[OF s] show ?thesis by simp
qed

section \<open>Unfolding the loop once\<close>

lemma run_loop_stop:
  "\<not> (cur \<noteq> PNone \<and> i < max_steps g) \<Longrightarrow> run_loop reg g run cur i = Finished run i"
  by (subst run_loop.simps) auto

lemma run_loop_continue:
  "cur \<noteq> PNone \<Longrightarrow> i < max_steps g \<Longrightarrow> run_step reg g run cur i = Inr (run', nxt) \<Longrightarrow>
     run_loop reg g run cur i = run_loop reg g run' nxt (i + 1)"
  by (subst run_loop.simps) simp


lemma run_step_returns_dict:
  assumes "nodes g s = Some node" "registry_get reg (tool_name node) = Inr tool"
    "tool (state run) = Returns m (PDict d)"
  shows "run_step reg g run (PStr s) i =
           Inr (after_step run (PStr s) i d,
                if dict_get d ''_next_node'' PNone \<noteq> PNone then dict_get d ''_next_node'' PNone
                else static_next g s)"
  using assms
  by (simp add: run_step_def nodes_getitem_def Let_def edges_get_PStr after_step_def static_next_def)

section \<open>C1: a null override and the static edge\<close>

text \<open>
  Against claim C1 as stated. Node \<open>a\<close> runs a tool whose returned state carries
  \<^verbatim>\<open>"_next_node": None\<close>, and the static edge map sends \<open>a\<close> to \<open>b\<close>. The run does not
  end at that step: \<^verbatim>\<open>pop("_next_node", None)\<close> yields \<^verbatim>\<open>None\<close>, the test
  \<^verbatim>\<open>override is not None\<close> fails, the static edge is followed and \<open>b\<close> is executed as step 1.
\<close>

theorem C1_counterexample:
  "snd (run_graph engine_end_then_b ''G'' [] ''R'') =
     Inr \<lparr>id_r = ''R'', graph_id = ''G'', status = Completed, current_node = PNone, state = [],
          log = [\<lparr>step_index = 0, node_id = PStr ''a'', state_snapshot = [(''_next_node'', PNone)]\<rparr>,
                 \<lparr>step_index = 1, node_id = PStr ''b'', state_snapshot = []\<rparr>],
          error = None\<rparr>"
  by (simp add: example_defs engine_defs run_loop.simps)

text \<open>
  Claim C1, amended to what the loop does. At any step whose tool returns a state that
  carries the reserved key with value \<open>v\<close>, the key is removed and the next node is \<open>v\<close>
  when \<open>v\<close> is not \<^verbatim>\<open>None\<close> (the override supersedes the static edge), and the target of the
  static edge of the current node when \<open>v\<close> is \<^verbatim>\<open>None\<close>. With a null override the loop is
  left after that step when the edge map has no target for the current node, or when
  that step used up the step budget (\<^verbatim>\<open>step_index + 1 >= max_steps\<close>); when the edge map has
  a target and the budget is not used up, the loop goes on with the iteration of that
  target.
\<close>

theorem C1_null_override_follows_static_edge:
  assumes "i < max_steps g" and "nodes g s = Some node"
    and "registry_get reg (tool_name node) = Inr tool"
    and "tool (state run) = Returns m (PDict d)"
    and "map_of d ''_next_node'' = Some v"
  shows "run_step reg g run (PStr s) i =
           Inr (after_step run (PStr s) i d, if v \<noteq> PNone then v else static_next g s) \<and>
         run_loop reg g run (PStr s) i =
           run_loop reg g (after_step run (PStr s) i d)
             (if v \<noteq> PNone then v else static_next g s) (i + 1) \<and>
         (v = PNone \<and> (static_next g s = PNone \<or> max_steps g \<le> i + 1) \<longrightarrow>
            run_loop reg g run (PStr s) i = Finished (after_step run (PStr s) i d) (i + 1)) \<and>
         (v = PNone \<and> static_next g s \<noteq> PNone \<and> i + 1 < max_steps g \<longrightarrow>
            run_loop reg g run (PStr s) i =
              (case run_step reg g (after_step run (PStr s) i d) (static_next g s) (i + 1) of
                 Inl (r, e) \<Rightarrow> Raised r (i + 1) e
               | Inr (r, nxt) \<Rightarrow> run_loop reg g r nxt (i + 1 + 1)))"
proof -
  let ?run' = "after_step run (PStr s) i d"
  let ?nxt = "if v \<noteq> PNone then v else static_next g s"
  have v: "dict_get d ''_next_node'' PNone = v"
    using assms(5) by (simp add: dict_get_def)
  have step: "run_step reg g run (PStr s) i = Inr (?run', ?nxt)"
    using run_step_returns_dict[OF assms(2-4), of i] v by simp
  have loop: "run_loop reg g run (PStr s) i = run_loop reg g ?run' ?nxt (i + 1)"
    using assms(1) step by (intro run_loop_continue) auto
  have stop: "run_loop reg g run (PStr s) i = Finished ?run' (i + 1)"
    if "v = PNone \<and> (static_next g s = PNone \<or> max_steps g \<le> i + 1)"
    using that loop run_loop_stop[of "static_next g s" "i + 1" g reg ?run'] by auto
  have go: "run_loop reg g run (PStr s) i =
              (case run_step reg g ?run' (static_next g s) (i + 1) of
                 Inl (r, e) \<Rightarrow> Raised r (i + 1) e
               | Inr (r, nxt) \<Rightarrow> run_loop reg g r nxt (i + 1 + 1))"
    if "v = PNone \<and> static_next g s \<noteq> PNone \<and> i + 1 < max_steps g"
    using that loop by (subst (asm) (2) run_loop.simps) simp
  from step loop stop go show ?thesis by blast
qed

text \<open>The hypotheses of the amended C1 hold at step 0 of the run above. With the same
  graph and a budget of one step, that step uses up the budget: the run is left after
  it, failed, and \<open>b\<close> is not executed.\<close>

theorem C1_null_override_follows_static_edge_witness:
  "graphs engine_end_then_b ''G'' = Some graph_end_then_b \<and>
   (0::int) < max_steps graph_end_then_b \<and>
   nodes graph_end_then_b ''a'' = Some \<lparr>id_n = ''a'', tool_name = PStr ''end''\<rparr> \<and>
   registry_get example_registry (PStr ''end'') = Inr tool_end \<and>
   tool_end [] = Returns [(''_next_node'', PNone)] (PDict [(''_next_node'', PNone)]) \<and>
   map_of [(''_next_node'', PNone)] ''_next_node'' = Some PNone \<and>
   static_next graph_end_then_b ''a'' = PStr ''b'' \<and>
   run_step example_registry graph_end_then_b (new_run graph_end_then_b ''G'' ''R'' []) (PStr ''a'') 0 =
     Inr (after_step (new_run graph_end_then_b ''G'' ''R'' []) (PStr ''a'') 0 [(''_next_node'', PNone)],
          PStr ''b'') \<and>
   snd (run_graph
          (example_engine
             [(''a'', [(''tool_name'', PStr ''end'')]), (''b'', [(''tool_name'', PStr ''identity'')])]
             [''a'' \<mapsto> Some ''b''] ''a'' 1) ''G'' [] ''R'') =
     Inr \<lparr>id_r = ''R'', graph_id = ''G'', status = Failed, current_node = PStr ''a'', state = [],
          log = [\<lparr>step_index = 0, node_id = PStr ''a'', state_snapshot = [(''_next_node'', PNone)]\<rparr>],
          error = Some Max_steps_exceeded\<rparr>"
proof -
  have h1: "(0::int) < max_steps graph_end_then_b"
    and h2: "nodes graph_end_then_b ''a'' = Some \<lparr>id_n = ''a'', tool_name = PStr ''end''\<rparr>"
    by (simp_all add: graph_end_then_b_def)
  have h3: "registry_get example_registry (tool_name \<lparr>id_n = ''a'', tool_name = PStr ''end''\<rparr>) = Inr tool_end"
    by (simp add: example_registry_def registry_get_def register_def)
  have h4: "tool_end (state (new_run graph_end_then_b ''G'' ''R'' [])) =
              Returns [(''_next_node'', PNone)] (PDict [(''_next_node'', PNone)])"
    by (simp add: tool_end_def new_run_def Let_def)
  have h5: "map_of [(''_next_node'', PNone)] ''_next_node'' = Some PNone"
    by simp
  have g: "graphs engine_end_then_b ''G'' = Some graph_end_then_b"
    by (simp add: example_defs engine_defs)
  have e: "static_next graph_end_then_b ''a'' = PStr ''b''"
    by (simp add: static_next_def graph_end_then_b_def)
  have t: "tool_end [] = Returns [(''_next_node'', PNone)] (PDict [(''_next_node'', PNone)])"
    by (simp add: tool_end_def Let_def)
  have b: "snd (run_graph
          (example_engine
             [(''a'', [(''tool_name'', PStr ''end'')]), (''b'', [(''tool_name'', PStr ''identity'')])]
             [''a'' \<mapsto> Some ''b''] ''a'' 1) ''G'' [] ''R'') =
     Inr \<lparr>id_r = ''R'', graph_id = ''G'', status = Failed, current_node = PStr ''a'', state = [],
          log = [\<lparr>step_index = 0, node_id = PStr ''a'', state_snapshot = [(''_next_node'', PNone)]\<rparr>],
          error = Some Max_steps_exceeded\<rparr>"
    by (simp add: example_defs engine_defs run_loop.simps)
  from C1_null_override_follows_static_edge[OF h1 h2 h3 h4 h5] g h1 h2 h3 t h5 e b
  show ?thesis by simp
qed

section \<open>C2: the status after the loop\<close>

text \<open>
  Claim C2 says that a run whose last executed step yields no next node exactly when the
  step count reaches \<^verbatim>\<open>max_steps\<close> is completed, with \<^verbatim>\<open>current_node\<close> cleared. The code
  after the loop tests \<^verbatim>\<open>step_index >= graph.max_steps\<close> only. Here a graph of one node
  with no edge and \<^verbatim>\<open>max_steps = 1\<close> ends naturally after its single step, and the run is
  marked failed with the loop-guard message, \<^verbatim>\<open>current_node\<close> still \<open>a\<close>.
\<close>

theorem C2_natural_end_at_budget:
  "snd (run_graph (engine_single ''identity'' 1) ''G'' [] ''R'') =
     Inr \<lparr>id_r = ''R'', graph_id = ''G'', status = Failed, current_node = PStr ''a'', state = [],
          log = [\<lparr>step_index = 0, node_id = PStr ''a'', state_snapshot = []\<rparr>],
          error = Some Max_steps_exceeded\<rparr>"
  by (simp add: example_defs engine_defs run_loop.simps)

section \<open>Whole runs\<close>

lemma run_graph_unknown:
  "graphs eng gid = None \<Longrightarrow> run_graph eng gid init rid = (eng, Inl (KeyError_graph gid))"
  by (simp add: run_graph_def)

lemma run_graph_known:
  "graphs eng gid = Some g \<Longrightarrow>
     run_graph eng gid init rid =
       (eng\<lparr>runs := (runs eng)(rid \<mapsto> finish g (loop_of eng g gid init rid))\<rparr>,
        outcome g (loop_of eng g gid init rid))"
  by (simp add: run_graph_def loop_of_def Let_def)

lemma run_graph_stored:
  "graphs eng gid = Some g \<Longrightarrow>
     runs (fst (run_graph eng gid init rid)) rid = Some (finish g (loop_of eng g gid init rid))"
  by (simp add: run_graph_known)

lemma outcome_simps:
  "outcome g (Finished run i) = Inr (finish g (Finished run i))"
  "is_Exception e \<Longrightarrow> outcome g (Raised run i e) = Inr (finish g (Raised run i e))"
  "\<not> is_Exception e \<Longrightarrow> outcome g (Raised run i e) = Inl e"
  by (simp_all add: outcome_def)

lemma outcome_Inr:
  "outcome g le = Inr r \<Longrightarrow> r = finish g le"
  by (cases le) (auto simp: outcome_def split: if_splits)

lemma run_graph_returned:
  assumes "graphs eng gid = Some g" and "snd (run_graph eng gid init rid) = Inr r"
  shows "r = finish g (loop_of eng g gid init rid)"
  using assms by (simp add: run_graph_known outcome_Inr)









lemma finish_fields:
  "log (finish g le) = log (run_of le)" "state (finish g le) = state (run_of le)"
  "id_r (finish g le) = id_r (run_of le)" "graph_id (finish g le) = graph_id (run_of le)"
  by (cases le; simp add: finish_def)+

text \<open>Every way a run of a stored graph ends, in terms of its completed iterations.\<close>

lemma loop_of_cases:
  "\<exists>n run' cur' i'.
      advance (tool_registry eng) g n (initial_config g gid rid init) = Some (run', cur', i') \<and>
      i' = int n \<and>
      ((loop_of eng g gid init rid = Finished run' i' \<and> \<not> (cur' \<noteq> PNone \<and> i' < max_steps g)) \<or>
       (\<exists>r e. loop_of eng g gid init rid = Raised r i' e \<and> cur' \<noteq> PNone \<and> i' < max_steps g \<and>
              run_step (tool_registry eng) g run' cur' i' = Inl (r, e)))"
proof -
  let ?run = "new_run g gid rid init" and ?cur = "PStr (start_node g)"
  from run_loop_cases[of "tool_registry eng" g ?run ?cur 0]
  obtain n run' cur' i' where
    a: "advance (tool_registry eng) g n (?run, ?cur, 0) = Some (run', cur', i')" and
    r: "(run_loop (tool_registry eng) g ?run ?cur 0 = Finished run' i' \<and>
           \<not> (cur' \<noteq> PNone \<and> i' < max_steps g)) \<or>
        (\<exists>r e. run_loop (tool_registry eng) g ?run ?cur 0 = Raised r i' e \<and> cur' \<noteq> PNone \<and>
               i' < max_steps g \<and> run_step (tool_registry eng) g run' cur' i' = Inl (r, e))"
    by blast
  from advance_fields[OF a] have "i' = int n" by simp
  with a r show ?thesis
    unfolding loop_of_def initial_config_def by blast
qed

lemma advance_initial_log:
  assumes "advance reg g n (initial_config g gid rid init) = Some (run', cur', i')"
  shows "map step_index (log run') = map int [0..<n]" and "length (log run') = n" and "i' = int n"
proof -
  from advance_log[OF assms[unfolded initial_config_def]]
  obtain es where es: "log run' = log (new_run g gid rid init) @ es"
    "map step_index es = map (\<lambda>k. 0 + int k) [0..<n]"
    by blast
  then show m: "map step_index (log run') = map int [0..<n]"
    by (simp add: new_run_def)
  from arg_cong[OF m, of length] show "length (log run') = n" by simp
  from advance_fields[OF assms[unfolded initial_config_def]] show "i' = int n" by simp
qed



lemma loop_of_final:
  "\<exists>k runk curk.
      advance (tool_registry eng) g k (initial_config g gid rid init) = Some (runk, curk, int k) \<and>
      log (finish g (loop_of eng g gid init rid)) = log runk \<and>
      steps_executed (loop_of eng g gid init rid) = int k \<and>
      ((\<exists>run i. loop_of eng g gid init rid = Finished run i) \<longrightarrow>
          loop_of eng g gid init rid = Finished runk (int k) \<and>
          \<not> (curk \<noteq> PNone \<and> int k < max_steps g))"
proof -
  from loop_of_cases[of eng g gid rid init] obtain n run' cur' i' where
    a: "advance (tool_registry eng) g n (initial_config g gid rid init) = Some (run', cur', i')" and
    i: "i' = int n" and
    r: "(loop_of eng g gid init rid = Finished run' i' \<and> \<not> (cur' \<noteq> PNone \<and> i' < max_steps g)) \<or>
       (\<exists>r e. loop_of eng g gid init rid = Raised r i' e \<and> cur' \<noteq> PNone \<and> i' < max_steps g \<and>
              run_step (tool_registry eng) g run' cur' i' = Inl (r, e))"
    by blast
  from r show ?thesis
  proof
    assume f: "loop_of eng g gid init rid = Finished run' i' \<and> \<not> (cur' \<noteq> PNone \<and> i' < max_steps g)"
    then have "log (finish g (loop_of eng g gid init rid)) = log run'"
      by (simp add: finish_fields)
    with a i f show ?thesis by auto
  next
    assume "\<exists>r e. loop_of eng g gid init rid = Raised r i' e \<and> cur' \<noteq> PNone \<and> i' < max_steps g \<and>
              run_step (tool_registry eng) g run' cur' i' = Inl (r, e)"
    then obtain r e where l: "loop_of eng g gid init rid = Raised r i' e" and
      s: "run_step (tool_registry eng) g run' cur' i' = Inl (r, e)" by blast
    from run_step_Inl_log[OF s] l have "log (finish g (loop_of eng g gid init rid)) = log run'"
      by (simp add: finish_fields)
    with a i l show ?thesis by auto
  qed
qed

lemma loop_of_fields:
  "status (run_of (loop_of eng g gid init rid)) = Running \<and>
   error (run_of (loop_of eng g gid init rid)) = None \<and>
   id_r (run_of (loop_of eng g gid init rid)) = rid \<and>
   graph_id (run_of (loop_of eng g gid init rid)) = gid"
proof -
  from loop_of_cases[of eng g gid rid init] obtain n run' cur' i' where
    a: "advance (tool_registry eng) g n (initial_config g gid rid init) = Some (run', cur', i')" and
    r: "(loop_of eng g gid init rid = Finished run' i' \<and> \<not> (cur' \<noteq> PNone \<and> i' < max_steps g)) \<or>
       (\<exists>r e. loop_of eng g gid init rid = Raised r i' e \<and> cur' \<noteq> PNone \<and> i' < max_steps g \<and>
              run_step (tool_registry eng) g run' cur' i' = Inl (r, e))"
    by blast
  from advance_fields[OF a[unfolded initial_config_def]]
  have f: "status run' = Running \<and> error run' = None \<and> id_r run' = rid \<and> graph_id run' = gid"
    by (simp add: new_run_def)
  from r show ?thesis
  proof
    assume "loop_of eng g gid init rid = Finished run' i' \<and> \<not> (cur' \<noteq> PNone \<and> i' < max_steps g)"
    with f show ?thesis by simp
  next
    assume "\<exists>r e. loop_of eng g gid init rid = Raised r i' e \<and> cur' \<noteq> PNone \<and> i' < max_steps g \<and>
              run_step (tool_registry eng) g run' cur' i' = Inl (r, e)"
    then obtain r e where "loop_of eng g gid init rid = Raised r i' e"
      "run_step (tool_registry eng) g run' cur' i' = Inl (r, e)" by blast
    with f run_step_Inl_log[of "tool_registry eng" g run' cur' i' r e] show ?thesis by simp
  qed
qed

lemma finish_status:
  "finish g (Finished run i) = (if max_steps g \<le> i
      then run\<lparr>status := Failed, error := Some Max_steps_exceeded\<rparr>
      else run\<lparr>status := Completed, current_node := PNone\<rparr>)"
  "is_Exception e \<Longrightarrow> finish g (Raised run i e) = run\<lparr>status := Failed, error := Some (Str e)\<rparr>"
  "\<not> is_Exception e \<Longrightarrow> finish g (Raised run i e) = run"
  by (simp_all add: finish_def)

section \<open>C3: the reserved key in snapshots and in the state\<close>




section \<open>Failures inside the loop\<close>








lemma run_graph_returned_status:
  assumes g: "graphs eng gid = Some g" and r: "snd (run_graph eng gid init rid) = Inr r"
  shows "runs (fst (run_graph eng gid init rid)) rid = Some r \<and>
         (status r = Completed \<and> error r = None \<or> status r = Failed \<and> (\<exists>t. error r = Some t))"
proof -
  let ?le = "loop_of eng g gid init rid"
  from run_graph_returned[OF g r] have rr: "r = finish g ?le" .
  from r g have o: "outcome g ?le = Inr r" by (simp add: run_graph_known)
  have "status (finish g ?le) = Completed \<and> error (finish g ?le) = None \<or>
        status (finish g ?le) = Failed \<and> (\<exists>t. error (finish g ?le) = Some t)"
  proof (cases ?le)
    case (Finished run i)
    with loop_of_fields[of eng g gid init rid] show ?thesis
      by (auto simp: finish_status)
  next
    case (Raised run i e)
    with o have "is_Exception e" by (auto simp: outcome_def split: if_splits)
    with Raised show ?thesis by (simp add: finish_status)
  qed
  with rr run_graph_stored[OF g, of init rid] show ?thesis by simp
qed

section \<open>C4: what \<^verbatim>\<open>run_graph\<close> raises\<close>




section \<open>C5: a step whose tool fails\<close>




section \<open>C6: the log counts the executed steps\<close>

text \<open>
  Against claim C6 as stated. \<^verbatim>\<open>max_steps\<close> is an \<^verbatim>\<open>int\<close> that \<^verbatim>\<open>create_graph\<close> stores
  unchecked. With \<^verbatim>\<open>max_steps = -1\<close> the loop makes no iteration and the log is empty, and
  its length, 0, exceeds \<^verbatim>\<open>max_steps\<close>.
\<close>

theorem C6_counterexample:
  "graphs (engine_single ''identity'' (- 1)) ''G'' = Some (graph_single ''identity'' (- 1)) \<and>
   snd (run_graph (engine_single ''identity'' (- 1)) ''G'' [] ''R'') =
     Inr \<lparr>id_r = ''R'', graph_id = ''G'', status = Failed, current_node = PStr ''a'', state = [],
          log = [], error = Some Max_steps_exceeded\<rparr> \<and>
   max_steps (graph_single ''identity'' (- 1)) <
     int (length (log (finish (graph_single ''identity'' (- 1))
            (loop_of (engine_single ''identity'' (- 1)) (graph_single ''identity'' (- 1))
               ''G'' [] ''R''))))"
  by (simp add: example_defs engine_defs loop_of_def run_loop.simps)

text \<open>
  Claim C6, amended. For every run, completed or failed (and also for a run left stored
  with status running by an exception that passes the handler), the length of its log equals
  the number of steps executed (the value of \<^verbatim>\<open>step_index\<close> when the loop is left), that
  number never exceeds \<^verbatim>\<open>max_steps\<close> when \<^verbatim>\<open>max_steps\<close> is not negative and is 0 when it is,
  and the entries' \<^verbatim>\<open>step_index\<close> values are 0, 1, 2, ... in append order.
\<close>

theorem C6_log_counts_steps:
  assumes "graphs eng gid = Some g"
  shows "\<exists>r. runs (fst (run_graph eng gid init rid)) rid = Some r \<and>
           (\<forall>r'. snd (run_graph eng gid init rid) = Inr r' \<longrightarrow> r' = r) \<and>
           int (length (log r)) = steps_executed (loop_of eng g gid init rid) \<and>
           steps_executed (loop_of eng g gid init rid) \<le> max 0 (max_steps g) \<and>
           map step_index (log r) = map int [0..<length (log r)]"
proof -
  let ?r = "finish g (loop_of eng g gid init rid)"
  have res: "runs (fst (run_graph eng gid init rid)) rid = Some ?r"
    using assms by (rule run_graph_stored)
  have ret: "\<forall>r'. snd (run_graph eng gid init rid) = Inr r' \<longrightarrow> r' = ?r"
    using run_graph_returned[OF assms] by blast
  from loop_of_final[of eng g gid rid init] obtain k runk curk where
    a: "advance (tool_registry eng) g k (initial_config g gid rid init) = Some (runk, curk, int k)" and
    l: "log ?r = log runk" and
    st: "steps_executed (loop_of eng g gid init rid) = int k"
    by blast
  from advance_initial_log[OF a] have
    idx: "map step_index (log runk) = map int [0..<k]" and len: "length (log runk) = k"
    by simp_all
  have bound: "int k \<le> max 0 (max_steps g)"
  proof (cases "0 < k")
    case True
    from advance_pos[OF a[unfolded initial_config_def] True] show ?thesis by simp
  next
    case False
    then show ?thesis by simp
  qed
  from l st idx len bound have
    "int (length (log ?r)) = steps_executed (loop_of eng g gid init rid) \<and>
     steps_executed (loop_of eng g gid init rid) \<le> max 0 (max_steps g) \<and>
     map step_index (log ?r) = map int [0..<length (log ?r)]"
    by simp
  with res ret show ?thesis by blast
qed

text \<open>The amended C6 at the two-step run of \<open>engine_end_then_b\<close>.\<close>

theorem C6_log_counts_steps_witness:
  "graphs engine_end_then_b ''G'' = Some graph_end_then_b \<and>
   steps_executed (loop_of engine_end_then_b graph_end_then_b ''G'' [] ''R'') = 2 \<and>
   map step_index (log (finish graph_end_then_b
        (loop_of engine_end_then_b graph_end_then_b ''G'' [] ''R''))) = [0, 1]"
proof -
  let ?r = "finish graph_end_then_b (loop_of engine_end_then_b graph_end_then_b ''G'' [] ''R'')"
  have g: "graphs engine_end_then_b ''G'' = Some graph_end_then_b"
    by (simp add: example_defs engine_defs)
  have r: "runs (fst (run_graph engine_end_then_b ''G'' [] ''R'')) ''R'' = Some ?r"
    using g by (rule run_graph_stored)
  have len: "length (log ?r) = 2"
    by (simp add: example_defs engine_defs loop_of_def run_loop.simps)
  from C6_log_counts_steps[OF g, of "[]" "''R''"] r have
    "int (length (log ?r)) = steps_executed (loop_of engine_end_then_b graph_end_then_b ''G'' [] ''R'')"
    "map step_index (log ?r) = map int [0..<length (log ?r)]"
    by auto
  with len g show ?thesis by (simp add: upt_rec)
qed

section \<open>C8: a node that always overrides to itself\<close>

lemma self_override_advance:
  assumes node: "nodes g s = Some node" and tool: "registry_get reg (tool_name node) = Inr tool"
    and self: "\<forall>st. \<exists>m d. tool st = Returns m (PDict d) \<and> map_of d ''_next_node'' = Some (PStr s)"
  shows "i + int k \<le> max_steps g \<Longrightarrow>
           \<exists>run'. advance reg g k (run, PStr s, i) = Some (run', PStr s, i + int k)"
proof (induction k arbitrary: run i)
  case 0
  then show ?case by simp
next
  case (Suc k)
  from self obtain m d where
    t: "tool (state run) = Returns m (PDict d)" and o: "map_of d ''_next_node'' = Some (PStr s)"
    by blast
  from o have "dict_get d ''_next_node'' PNone = PStr s" by (simp add: dict_get_def)
  with run_step_returns_dict[OF node tool t, of i]
  have step: "run_step reg g run (PStr s) i = Inr (after_step run (PStr s) i d, PStr s)"
    by simp
  from Suc.prems have lt: "i < max_steps g" and rest: "(i + 1) + int k \<le> max_steps g"
    by simp_all
  from Suc.IH[OF rest] obtain run' where
    "advance reg g k (after_step run (PStr s) i d, PStr s, i + 1) = Some (run', PStr s, i + 1 + int k)"
    by blast
  with step lt show ?case by simp
qed

text \<open>
  Against claim C8 as stated. A single node whose tool always sets the override to the
  node's own id, in a graph stored with \<^verbatim>\<open>max_steps = -3\<close>: the run makes no step and has
  no log entry, not \<^verbatim>\<open>max_steps\<close> of them. It does end failed with the loop-guard message.
\<close>

theorem C8_counterexample:
  "graphs (engine_single ''goto_a'' (- 3)) ''G'' = Some (graph_single ''goto_a'' (- 3)) \<and>
   snd (run_graph (engine_single ''goto_a'' (- 3)) ''G'' [] ''R'') =
     Inr \<lparr>id_r = ''R'', graph_id = ''G'', status = Failed, current_node = PStr ''a'', state = [],
          log = [], error = Some Max_steps_exceeded\<rparr> \<and>
   steps_executed (loop_of (engine_single ''goto_a'' (- 3)) (graph_single ''goto_a'' (- 3))
                     ''G'' [] ''R'') = 0 \<and>
   max_steps (graph_single ''goto_a'' (- 3)) = - 3"
  by (simp add: example_defs engine_defs loop_of_def run_loop.simps)

text \<open>
  Claim C8, amended. For every graph whose start node runs a tool that always returns a
  state with the override set to that node's own id (a single-node graph with such a
  tool in particular), \<^verbatim>\<open>run_graph\<close> executes exactly \<^verbatim>\<open>max_steps\<close> steps when \<^verbatim>\<open>max_steps\<close>
  is not negative, and none when it is, produces as many log entries, and ends with
  status failed and the loop-guard message.
\<close>

theorem C8_self_override_exhausts_budget:
  assumes "graphs eng gid = Some g"
    and "nodes g (start_node g) = Some node"
    and "registry_get (tool_registry eng) (tool_name node) = Inr tool"
    and "\<forall>st. \<exists>m d. tool st = Returns m (PDict d) \<and>
               map_of d ''_next_node'' = Some (PStr (start_node g))"
  shows "\<exists>r. snd (run_graph eng gid init rid) = Inr r \<and>
           status r = Failed \<and> error r = Some Max_steps_exceeded \<and>
           steps_executed (loop_of eng g gid init rid) = max 0 (max_steps g) \<and>
           int (length (log r)) = max 0 (max_steps g)"
proof -
  let ?reg = "tool_registry eng" and ?s = "start_node g"
  let ?le = "loop_of eng g gid init rid"
  define k where "k = nat (max_steps g)"
  have kmax: "int k = max 0 (max_steps g)" and kle: "0 + int k \<le> max_steps g \<or> k = 0"
    and stop: "\<not> int k < max_steps g"
    by (auto simp: k_def)
  have "\<exists>run'. advance ?reg g k (initial_config g gid rid init) = Some (run', PStr ?s, int k)"
  proof (cases "k = 0")
    case True
    then show ?thesis by (simp add: initial_config_def)
  next
    case False
    with kle have "0 + int k \<le> max_steps g" by simp
    from self_override_advance[OF assms(2-4) this, of "new_run g gid rid init"]
    show ?thesis by (simp add: initial_config_def)
  qed
  then obtain run' where
    a: "advance ?reg g k (initial_config g gid rid init) = Some (run', PStr ?s, int k)"
    by blast
  from advance_run_loop[OF a[unfolded initial_config_def]]
  have "?le = run_loop ?reg g run' (PStr ?s) (int k)"
    by (simp add: loop_of_def)
  also have "\<dots> = Finished run' (int k)"
    using stop by (intro run_loop_stop) simp
  finally have le: "?le = Finished run' (int k)" .
  from advance_initial_log[OF a] have len: "length (log run') = k" by simp
  have res: "snd (run_graph eng gid init rid) = Inr (finish g ?le)"
    using assms(1) le by (simp add: run_graph_known outcome_simps)
  have "status (finish g ?le) = Failed \<and> error (finish g ?le) = Some Max_steps_exceeded \<and>
        steps_executed ?le = max 0 (max_steps g) \<and>
        int (length (log (finish g ?le))) = max 0 (max_steps g)"
    using le len kmax stop by (simp add: finish_status)
  with res show ?thesis by blast
qed

text \<open>The amended C8 at a self-overriding node with a budget of two steps.\<close>

theorem C8_self_override_exhausts_budget_witness:
  "graphs (engine_single ''goto_a'' 2) ''G'' = Some (graph_single ''goto_a'' 2) \<and>
   nodes (graph_single ''goto_a'' 2) (start_node (graph_single ''goto_a'' 2)) =
     Some \<lparr>id_n = ''a'', tool_name = PStr ''goto_a''\<rparr> \<and>
   registry_get (tool_registry (engine_single ''goto_a'' 2)) (PStr ''goto_a'') = Inr (tool_goto ''a'') \<and>
   status (finish (graph_single ''goto_a'' 2)
      (loop_of (engine_single ''goto_a'' 2) (graph_single ''goto_a'' 2) ''G'' [] ''R'')) = Failed \<and>
   steps_executed
      (loop_of (engine_single ''goto_a'' 2) (graph_single ''goto_a'' 2) ''G'' [] ''R'') = 2"
proof -
  let ?E = "engine_single ''goto_a'' 2" and ?G = "graph_single ''goto_a'' 2"
  have h1: "graphs ?E ''G'' = Some ?G"
    by (simp add: example_defs engine_defs)
  have h2: "nodes ?G (start_node ?G) = Some \<lparr>id_n = ''a'', tool_name = PStr ''goto_a''\<rparr>"
    by (simp add: graph_single_def)
  have h3: "registry_get (tool_registry ?E)
              (tool_name \<lparr>id_n = ''a'', tool_name = PStr ''goto_a''\<rparr>) = Inr (tool_goto ''a'')"
    by (simp add: example_defs engine_defs)
  have h4: "\<forall>st. \<exists>m d. tool_goto ''a'' st = Returns m (PDict d) \<and>
               map_of d ''_next_node'' = Some (PStr (start_node ?G))"
    by (simp add: tool_goto_def Let_def graph_single_def AList.update_conv')
  have r: "runs (fst (run_graph ?E ''G'' [] ''R'')) ''R'' =
             Some (finish ?G (loop_of ?E ?G ''G'' [] ''R''))"
    using h1 by (rule run_graph_stored)
  from C8_self_override_exhausts_budget[OF h1 h2 h3 h4, of "[]" "''R''"]
    run_graph_returned[OF h1, of "[]" "''R''"]
  have "status (finish ?G (loop_of ?E ?G ''G'' [] ''R'')) = Failed"
    and "steps_executed (loop_of ?E ?G ''G'' [] ''R'') = max 0 (max_steps ?G)"
    by auto
  moreover have "max 0 (max_steps ?G) = 2" by (simp add: graph_single_def)
  moreover from h3 have "registry_get (tool_registry ?E) (PStr ''goto_a'') = Inr (tool_goto ''a'')"
    by simp
  ultimately show ?thesis using h1 h2 by simp
qed

section \<open>Graph construction: the validation loop\<close>

lemma registry_get_Inr_iff:
  "registry_get reg v = Inr fn \<longleftrightarrow> (\<exists>s. v = PStr s \<and> reg s = Some fn)"
  by (cases v) (auto simp: registry_get_def split: option.splits)

lemma names_registered_tool_iff:
  "names_registered_tool reg cfg \<longleftrightarrow>
     truthy (dict_get cfg ''tool_name'' PNone) \<and>
     (\<exists>fn. registry_get reg (dict_get cfg ''tool_name'' PNone) = Inr fn)"
  by (cases "dict_get cfg ''tool_name'' PNone")
     (auto simp: names_registered_tool_def registry_get_Inr_iff)

lemma build_nodes_step_valid:
  "names_registered_tool reg cfg \<Longrightarrow>
     build_nodes reg ((nid, cfg) # rest) acc =
       build_nodes reg rest
         (acc(nid \<mapsto> \<lparr>id_n = nid, tool_name = dict_get cfg ''tool_name'' PNone\<rparr>))"
  by (auto simp: names_registered_tool_iff Let_def)

lemma build_nodes_step_lacks:
  "lacks_tool_name cfg \<Longrightarrow>
     build_nodes reg ((nid, cfg) # rest) acc = Inl (ValueError_missing_tool_name nid)"
  by (simp add: lacks_tool_name_def Let_def)

lemma build_nodes_step_unregistered:
  "names_unregistered_tool reg cfg \<Longrightarrow>
     build_nodes reg ((nid, cfg) # rest) acc = Inl (KeyError_tool (dict_get cfg ''tool_name'' PNone))"
  by (cases "dict_get cfg ''tool_name'' PNone")
     (auto simp: names_unregistered_tool_def Let_def registry_get_def)

lemma build_nodes_step_invalid:
  "\<not> names_registered_tool reg cfg \<Longrightarrow> \<exists>e. build_nodes reg ((nid, cfg) # rest) acc = Inl e"
  by (auto simp: names_registered_tool_iff Let_def split: sum.splits)

lemma build_nodes_prefix:
  "\<forall>(n, c) \<in> set pre. names_registered_tool reg c \<Longrightarrow>
     \<exists>acc'. build_nodes reg (pre @ rest) acc = build_nodes reg rest acc'"
proof (induction pre arbitrary: acc)
  case Nil
  then show ?case by auto
next
  case (Cons p pre)
  obtain nid cfg where p: "p = (nid, cfg)" by (cases p)
  from Cons.prems p have v: "names_registered_tool reg cfg"
    and rest: "\<forall>(n, c) \<in> set pre. names_registered_tool reg c" by auto
  from Cons.IH[OF rest] build_nodes_step_valid[OF v] p show ?case
    by (metis append_Cons)
qed

lemma build_nodes_Inr_iff:
  "(\<exists>ns. build_nodes reg ncs acc = Inr ns) \<longleftrightarrow> (\<forall>(n, c) \<in> set ncs. names_registered_tool reg c)"
proof (induction ncs arbitrary: acc)
  case Nil
  then show ?case by simp
next
  case (Cons p ncs)
  obtain nid cfg where p: "p = (nid, cfg)" by (cases p)
  show ?case
  proof (cases "names_registered_tool reg cfg")
    case True
    from build_nodes_step_valid[OF True] Cons.IH p True show ?thesis by simp
  next
    case False
    from build_nodes_step_invalid[OF False, of nid ncs acc] p False show ?thesis by auto
  qed
qed

lemma build_nodes_result:
  "build_nodes reg ncs acc = Inr ns \<Longrightarrow>
     dom ns = dom acc \<union> set (map fst ncs) \<and>
     (\<forall>n node. ns n = Some node \<longrightarrow>
        acc n = Some node \<or> (\<exists>fn. registry_get reg (tool_name node) = Inr fn))"
proof (induction ncs arbitrary: acc)
  case Nil
  then show ?case by simp
next
  case (Cons p ncs)
  obtain nid cfg where p: "p = (nid, cfg)" by (cases p)
  from Cons.prems p have v: "names_registered_tool reg cfg"
    using build_nodes_Inr_iff[of reg "p # ncs" acc] by auto
  let ?acc = "acc(nid \<mapsto> \<lparr>id_n = nid, tool_name = dict_get cfg ''tool_name'' PNone\<rparr>)"
  from Cons.prems p build_nodes_step_valid[OF v] have "build_nodes reg ncs ?acc = Inr ns"
    by simp
  from Cons.IH[OF this] have
    d: "dom ns = dom ?acc \<union> set (map fst ncs)" and
    n: "\<forall>n node. ns n = Some node \<longrightarrow>
          ?acc n = Some node \<or> (\<exists>fn. registry_get reg (tool_name node) = Inr fn)"
    by blast+
  from v have reg: "\<exists>fn. registry_get reg (dict_get cfg ''tool_name'' PNone) = Inr fn"
    by (simp add: names_registered_tool_iff)
  have "dom ns = dom acc \<union> set (map fst (p # ncs))"
    using d p by auto
  moreover have "\<forall>n node. ns n = Some node \<longrightarrow>
        acc n = Some node \<or> (\<exists>fn. registry_get reg (tool_name node) = Inr fn)"
  proof (intro allI impI)
    fix n node assume "ns n = Some node"
    with n have "?acc n = Some node \<or> (\<exists>fn. registry_get reg (tool_name node) = Inr fn)"
      by blast
    with reg show "acc n = Some node \<or> (\<exists>fn. registry_get reg (tool_name node) = Inr fn)"
      by (cases "n = nid") auto
  qed
  ultimately show ?case by blast
qed

lemma create_graph_Inr:
  assumes "snd (create_graph eng gname ncs em start limit new_id) = Inr g"
  shows "start \<in> set (map fst ncs)"
    and "build_nodes (tool_registry eng) ncs Map.empty = Inr (nodes g)"
    and "g = \<lparr>id_g = new_id, name = gname, nodes = nodes g, edges = em,
              start_node = start, max_steps = limit\<rparr>"
    and "fst (create_graph eng gname ncs em start limit new_id) =
           eng\<lparr>graphs := (graphs eng)(new_id \<mapsto> g)\<rparr>"
  using assms
  by (auto simp: create_graph_def Let_def split: if_splits sum.splits)

lemma create_graph_Inl:
  "snd (create_graph eng gname ncs em start limit new_id) = Inl e \<Longrightarrow>
     fst (create_graph eng gname ncs em start limit new_id) = eng"
  by (auto simp: create_graph_def Let_def split: if_splits sum.splits)

lemma create_graph_Inr_iff:
  "(\<exists>g. snd (create_graph eng gname ncs em start limit new_id) = Inr g) \<longleftrightarrow>
     start \<in> set (map fst ncs) \<and> (\<forall>(n, c) \<in> set ncs. names_registered_tool (tool_registry eng) c)"
proof (cases "start \<in> set (map fst ncs)")
  case False
  then show ?thesis by (simp add: create_graph_def)
next
  case True
  show ?thesis
  proof (cases "build_nodes (tool_registry eng) ncs Map.empty")
    case (Inl e)
    with True build_nodes_Inr_iff[of "tool_registry eng" ncs Map.empty] show ?thesis
      by (simp add: create_graph_def)
  next
    case (Inr ns)
    with True build_nodes_Inr_iff[of "tool_registry eng" ncs Map.empty] show ?thesis
      by (simp add: create_graph_def Let_def)
  qed
qed

section \<open>C7: the errors of \<^verbatim>\<open>create_graph\<close>\<close>

text \<open>
  Against claim C7 as stated. The checks run in order and the first one that fails
  decides the exception. When node \<open>a\<close> names an unregistered tool and the later node \<open>b\<close>
  lacks a tool name, \<^verbatim>\<open>create_graph\<close> fails with the registry's \<^verbatim>\<open>KeyError\<close>, not with
  \<^verbatim>\<open>ValueError\<close>, although a node config lacks a tool name; with the two nodes in the other
  order it fails with \<^verbatim>\<open>ValueError\<close>, although a node names an unregistered tool.
\<close>

theorem C7_counterexample:
  "snd (create_graph (new_engine example_registry) ''example''
          [(''a'', [(''tool_name'', PStr ''ghost'')]), (''b'', [])] Map.empty ''a'' 100 ''G'') =
     Inl (KeyError_tool (PStr ''ghost'')) \<and>
   lacks_tool_name [] \<and>
   class_of (KeyError_tool (PStr ''ghost'')) = KeyError \<and>
   snd (create_graph (new_engine example_registry) ''example''
          [(''a'', []), (''b'', [(''tool_name'', PStr ''ghost'')])] Map.empty ''a'' 100 ''G'') =
     Inl (ValueError_missing_tool_name ''a'') \<and>
   names_unregistered_tool example_registry [(''tool_name'', PStr ''ghost'')] \<and>
   class_of (ValueError_missing_tool_name ''a'') = ValueError"
  by (simp add: example_defs engine_defs lacks_tool_name_def names_unregistered_tool_def)

text \<open>
  Claim C7, amended. \<^verbatim>\<open>create_graph\<close> fails with \<^verbatim>\<open>ValueError\<close> (InvalidArgument) when
  \<^verbatim>\<open>start_node\<close> is not a key of the node configs. Otherwise the node configs are checked in
  their order and the first entry that is not valid decides: \<^verbatim>\<open>ValueError\<close> when it lacks a
  tool name (no \<^verbatim>\<open>tool_name\<close> key, or a falsy value), the registry's \<^verbatim>\<open>KeyError\<close> (NotFound)
  when it names an unregistered tool. \<^verbatim>\<open>create_graph\<close> succeeds exactly when the start node
  is a key and every node names a registered tool, so it fails whenever any node is
  invalid; tool existence is validated at graph-build time: every node of a graph that
  was built resolves in the registry, and the start node is one of its nodes.
\<close>

theorem C7_create_graph_validation:
  "(start \<notin> set (map fst ncs) \<longrightarrow>
      create_graph eng gname ncs em start limit new_id = (eng, Inl ValueError_start_node)) \<and>
   (\<forall>pre nid cfg post.
      start \<in> set (map fst ncs) \<and> ncs = pre @ (nid, cfg) # post \<and>
      (\<forall>(n, c) \<in> set pre. names_registered_tool (tool_registry eng) c) \<longrightarrow>
        (lacks_tool_name cfg \<longrightarrow>
           snd (create_graph eng gname ncs em start limit new_id) =
             Inl (ValueError_missing_tool_name nid)) \<and>
        (names_unregistered_tool (tool_registry eng) cfg \<longrightarrow>
           snd (create_graph eng gname ncs em start limit new_id) =
             Inl (KeyError_tool (dict_get cfg ''tool_name'' PNone)))) \<and>
   ((\<exists>g. snd (create_graph eng gname ncs em start limit new_id) = Inr g) \<longleftrightarrow>
      start \<in> set (map fst ncs) \<and>
      (\<forall>(n, c) \<in> set ncs. names_registered_tool (tool_registry eng) c)) \<and>
   (\<forall>g. snd (create_graph eng gname ncs em start limit new_id) = Inr g \<longrightarrow>
      nodes g start \<noteq> None \<and>
      (\<forall>n node. nodes g n = Some node \<longrightarrow>
         (\<exists>fn. registry_get (tool_registry eng) (tool_name node) = Inr fn))) \<and>
   class_of ValueError_start_node = ValueError \<and>
   (\<forall>nid. class_of (ValueError_missing_tool_name nid) = ValueError) \<and>
   (\<forall>v. class_of (KeyError_tool v) = KeyError)"
proof -
  let ?reg = "tool_registry eng"
  let ?cg = "create_graph eng gname ncs em start limit new_id"
  have start: "?cg = (eng, Inl ValueError_start_node)" if "start \<notin> set (map fst ncs)"
    using that by (simp add: create_graph_def)
  have first: "(lacks_tool_name cfg \<longrightarrow> snd ?cg = Inl (ValueError_missing_tool_name nid)) \<and>
        (names_unregistered_tool ?reg cfg \<longrightarrow>
           snd ?cg = Inl (KeyError_tool (dict_get cfg ''tool_name'' PNone)))"
    if s: "start \<in> set (map fst ncs)" and n: "ncs = pre @ (nid, cfg) # post"
      and p: "\<forall>(n, c) \<in> set pre. names_registered_tool ?reg c"
    for pre nid cfg post
  proof -
    from build_nodes_prefix[OF p, of "(nid, cfg) # post" Map.empty] n obtain acc' where
      b: "build_nodes ?reg ncs Map.empty = build_nodes ?reg ((nid, cfg) # post) acc'"
      by auto
    have "snd ?cg = Inl (ValueError_missing_tool_name nid)" if "lacks_tool_name cfg"
      using s b build_nodes_step_lacks[OF that, of ?reg nid post acc']
      by (simp add: create_graph_def)
    moreover have "snd ?cg = Inl (KeyError_tool (dict_get cfg ''tool_name'' PNone))"
      if "names_unregistered_tool ?reg cfg"
      using s b build_nodes_step_unregistered[OF that, of nid post acc']
      by (simp add: create_graph_def)
    ultimately show ?thesis by blast
  qed
  have built: "nodes g start \<noteq> None \<and>
      (\<forall>n node. nodes g n = Some node \<longrightarrow> (\<exists>fn. registry_get ?reg (tool_name node) = Inr fn))"
    if "snd ?cg = Inr g" for g
  proof -
    from create_graph_Inr(1,2)[OF that] have s: "start \<in> set (map fst ncs)"
      and b: "build_nodes ?reg ncs Map.empty = Inr (nodes g)" by simp_all
    from build_nodes_result[OF b] s show ?thesis by auto
  qed
  have c1: "start \<notin> set (map fst ncs) \<longrightarrow> ?cg = (eng, Inl ValueError_start_node)"
    using start by (rule impI)
  have c2: "\<forall>pre nid cfg post.
      start \<in> set (map fst ncs) \<and> ncs = pre @ (nid, cfg) # post \<and>
      (\<forall>(n, c) \<in> set pre. names_registered_tool ?reg c) \<longrightarrow>
        (lacks_tool_name cfg \<longrightarrow> snd ?cg = Inl (ValueError_missing_tool_name nid)) \<and>
        (names_unregistered_tool ?reg cfg \<longrightarrow>
           snd ?cg = Inl (KeyError_tool (dict_get cfg ''tool_name'' PNone)))"
  proof (intro allI impI)
    fix pre nid cfg post
    assume h: "start \<in> set (map fst ncs) \<and> ncs = pre @ (nid, cfg) # post \<and>
      (\<forall>(n, c) \<in> set pre. names_registered_tool ?reg c)"
    then have h1: "start \<in> set (map fst ncs)" and h2: "ncs = pre @ (nid, cfg) # post"
      and h3: "\<forall>(n, c) \<in> set pre. names_registered_tool ?reg c"
      by (rule conjunct1, rule conjunct2[THEN conjunct1], rule conjunct2[THEN conjunct2])
    from first[OF h1 h2 h3]
    show "(lacks_tool_name cfg \<longrightarrow> snd ?cg = Inl (ValueError_missing_tool_name nid)) \<and>
        (names_unregistered_tool ?reg cfg \<longrightarrow>
           snd ?cg = Inl (KeyError_tool (dict_get cfg ''tool_name'' PNone)))" .
  qed
  have c3: "(\<exists>g. snd ?cg = Inr g) \<longleftrightarrow>
      start \<in> set (map fst ncs) \<and> (\<forall>(n, c) \<in> set ncs. names_registered_tool ?reg c)"
    by (rule create_graph_Inr_iff)
  have c4: "\<forall>g. snd ?cg = Inr g \<longrightarrow>
      nodes g start \<noteq> None \<and>
      (\<forall>n node. nodes g n = Some node \<longrightarrow> (\<exists>fn. registry_get ?reg (tool_name node) = Inr fn))"
    using built by (intro allI impI)
  have c5: "class_of ValueError_start_node = ValueError \<and>
   (\<forall>nid. class_of (ValueError_missing_tool_name nid) = ValueError) \<and>
   (\<forall>v. class_of (KeyError_tool v) = KeyError)"
    by simp
  from c1 c2 c3 c4 c5 show ?thesis
    by (intro conjI) simp_all
qed

text \<open>The amended C7 where the first node is valid and the second lacks a tool name.\<close>

theorem C7_create_graph_validation_witness:
  "''a'' \<in> set (map fst [(''a'', [(''tool_name'', PStr ''identity'')]), (''b'', [] :: pystate)]) \<and>
   names_registered_tool (tool_registry (new_engine example_registry))
     [(''tool_name'', PStr ''identity'')] \<and>
   lacks_tool_name [] \<and>
   snd (create_graph (new_engine example_registry) ''example''
          [(''a'', [(''tool_name'', PStr ''identity'')]), (''b'', [])] Map.empty ''a'' 100 ''G'') =
     Inl (ValueError_missing_tool_name ''b'')"
proof -
  let ?E = "new_engine example_registry"
  let ?ncs = "[(''a'', [(''tool_name'', PStr ''identity'')]), (''b'', [] :: pystate)]"
  have h1: "''a'' \<in> set (map fst ?ncs)" by simp
  have h2: "?ncs = [(''a'', [(''tool_name'', PStr ''identity'')])] @ (''b'', []) # []" by simp
  have v: "names_registered_tool (tool_registry ?E) [(''tool_name'', PStr ''identity'')]"
    by (simp add: names_registered_tool_def example_defs engine_defs)
  then have h3: "\<forall>(n, c) \<in> set [(''a'', [(''tool_name'', PStr ''identity'')])].
                   names_registered_tool (tool_registry ?E) c"
    by simp
  have h4: "lacks_tool_name []" by (simp add: lacks_tool_name_def dict_get_def)
  from C7_create_graph_validation[of "''a''" ?ncs ?E "''example''" Map.empty 100 "''G''"]
  have "\<forall>pre nid cfg post.
      ''a'' \<in> set (map fst ?ncs) \<and> ?ncs = pre @ (nid, cfg) # post \<and>
      (\<forall>(n, c) \<in> set pre. names_registered_tool (tool_registry ?E) c) \<longrightarrow>
        (lacks_tool_name cfg \<longrightarrow>
           snd (create_graph ?E ''example'' ?ncs Map.empty ''a'' 100 ''G'') =
             Inl (ValueError_missing_tool_name nid))"
    by blast
  from this[rule_format, of "[(''a'', [(''tool_name'', PStr ''identity'')])]" "''b''" "[]" "[]"]
    h1 h2 h3 h4
  have "snd (create_graph ?E ''example'' ?ncs Map.empty ''a'' 100 ''G'') =
             Inl (ValueError_missing_tool_name ''b'')"
    by blast
  with h1 v h4 show ?thesis by simp
qed

section \<open>C9: \<^verbatim>\<open>create_graph\<close> stores a graph only after validation\<close>

lemma lacks_not_registered:
  "lacks_tool_name c \<Longrightarrow> \<not> names_registered_tool reg c"
  by (cases "dict_get c ''tool_name'' PNone")
     (simp_all add: lacks_tool_name_def names_registered_tool_def)

lemma unregistered_not_registered:
  "names_unregistered_tool reg c \<Longrightarrow> \<not> names_registered_tool reg c"
  by (cases "dict_get c ''tool_name'' PNone")
     (simp_all add: names_unregistered_tool_def names_registered_tool_def)

text \<open>
  Claim C9. Whenever \<^verbatim>\<open>create_graph\<close> raises, the engine is unchanged: no graph is stored.
  It raises on every validation failure: a start node that is not a key, a node config
  that lacks a tool name, a node that names an unregistered tool. When it returns a
  graph, the engine differs from the one before only by that graph stored under its new
  id, the start node is a key, and every node config has been validated.
\<close>

theorem C9_create_graph_atomic:
  "(\<forall>e. snd (create_graph eng gname ncs em start limit new_id) = Inl e \<longrightarrow>
      fst (create_graph eng gname ncs em start limit new_id) = eng) \<and>
   (start \<notin> set (map fst ncs) \<or>
    (\<exists>(n, c) \<in> set ncs. lacks_tool_name c \<or> names_unregistered_tool (tool_registry eng) c) \<longrightarrow>
      fst (create_graph eng gname ncs em start limit new_id) = eng \<and>
      (\<exists>e. snd (create_graph eng gname ncs em start limit new_id) = Inl e)) \<and>
   (\<forall>g. snd (create_graph eng gname ncs em start limit new_id) = Inr g \<longrightarrow>
      fst (create_graph eng gname ncs em start limit new_id) =
        eng\<lparr>graphs := (graphs eng)(new_id \<mapsto> g)\<rparr> \<and>
      start \<in> set (map fst ncs) \<and>
      (\<forall>(n, c) \<in> set ncs. names_registered_tool (tool_registry eng) c) \<and>
      g = \<lparr>id_g = new_id, name = gname, nodes = nodes g, edges = em,
           start_node = start, max_steps = limit\<rparr>)"
proof -
  let ?reg = "tool_registry eng"
  let ?cg = "create_graph eng gname ncs em start limit new_id"
  have fail: "\<forall>e. snd ?cg = Inl e \<longrightarrow> fst ?cg = eng"
    using create_graph_Inl by blast
  have bad: "fst ?cg = eng \<and> (\<exists>e. snd ?cg = Inl e)"
    if "start \<notin> set (map fst ncs) \<or>
        (\<exists>(n, c) \<in> set ncs. lacks_tool_name c \<or> names_unregistered_tool ?reg c)"
  proof -
    have "\<not> (start \<in> set (map fst ncs) \<and> (\<forall>(n, c) \<in> set ncs. names_registered_tool ?reg c))"
      using that lacks_not_registered[of _ ?reg] unregistered_not_registered[of ?reg]
      by blast
    with create_graph_Inr_iff[of eng gname ncs em start limit new_id]
    have "\<not> (\<exists>g. snd ?cg = Inr g)" by simp
    then obtain e where "snd ?cg = Inl e" by (cases "snd ?cg") auto
    with fail show ?thesis by blast
  qed
  have ok: "fst ?cg = eng\<lparr>graphs := (graphs eng)(new_id \<mapsto> g)\<rparr> \<and>
      start \<in> set (map fst ncs) \<and> (\<forall>(n, c) \<in> set ncs. names_registered_tool ?reg c) \<and>
      g = \<lparr>id_g = new_id, name = gname, nodes = nodes g, edges = em,
           start_node = start, max_steps = limit\<rparr>"
    if "snd ?cg = Inr g" for g
    using create_graph_Inr(3,4)[OF that]
      create_graph_Inr_iff[of eng gname ncs em start limit new_id] that
    by blast
  from fail bad ok show ?thesis by blast
qed

text \<open>Claim C9 at a second graph, with an unregistered tool, on an engine that holds one
  graph.\<close>

theorem C9_create_graph_atomic_witness:
  "names_unregistered_tool (tool_registry engine_end_then_b) [(''tool_name'', PStr ''ghost'')] \<and>
   fst (create_graph engine_end_then_b ''second''
          [(''a'', [(''tool_name'', PStr ''identity'')]), (''b'', [(''tool_name'', PStr ''ghost'')])]
          Map.empty ''a'' 5 ''G2'') = engine_end_then_b \<and>
   snd (create_graph engine_end_then_b ''second''
          [(''a'', [(''tool_name'', PStr ''identity'')]), (''b'', [(''tool_name'', PStr ''ghost'')])]
          Map.empty ''a'' 5 ''G2'') = Inl (KeyError_tool (PStr ''ghost''))"
proof -
  let ?ncs = "[(''a'', [(''tool_name'', PStr ''identity'')]), (''b'', [(''tool_name'', PStr ''ghost'')])]"
  have u: "names_unregistered_tool (tool_registry engine_end_then_b) [(''tool_name'', PStr ''ghost'')]"
    by (simp add: names_unregistered_tool_def example_defs engine_defs)
  then have h: "\<exists>(n, c) \<in> set ?ncs.
      lacks_tool_name c \<or> names_unregistered_tool (tool_registry engine_end_then_b) c"
    by simp
  from C9_create_graph_atomic[of engine_end_then_b "''second''" ?ncs Map.empty "''a''" 5 "''G2''"] h
  have f: "fst (create_graph engine_end_then_b ''second'' ?ncs Map.empty ''a'' 5 ''G2'') =
             engine_end_then_b"
    by blast
  have e: "snd (create_graph engine_end_then_b ''second'' ?ncs Map.empty ''a'' 5 ''G2'') =
             Inl (KeyError_tool (PStr ''ghost''))"
    by (simp add: example_defs engine_defs)
  from u f e show ?thesis by simp
qed

section \<open>C10: runs are stored and kept\<close>

lemma create_graph_runs:
  "runs (fst (create_graph eng gname ncs em start limit new_id)) = runs eng"
  by (auto simp: create_graph_def Let_def split: sum.splits)

lemma run_graph_runs:
  "runs (fst (run_graph eng gid init rid)) =
     (case graphs eng gid of
        None \<Rightarrow> runs eng
      | Some g \<Rightarrow> (runs eng)(rid \<mapsto> finish g (loop_of eng g gid init rid)))"
  by (cases "graphs eng gid") (simp_all add: run_graph_unknown run_graph_known)

lemma get_run_iff:
  "get_run eng x = Inr r \<longleftrightarrow> runs eng x = Some r"
  "get_run eng x = Inl e \<longleftrightarrow> runs eng x = None \<and> e = KeyError_run x"
  by (auto simp: get_run_def split: option.splits)

lemma exec_call_runs_other:
  "x \<notin> drawn_run_ids [c] \<Longrightarrow> runs (exec_call eng c) x = runs eng x"
  by (cases c) (auto simp: create_graph_runs run_graph_runs split: option.splits)

lemma exec_call_dom_runs:
  "dom (runs (exec_call eng c)) = dom (runs eng) \<union> created_runs eng [c]"
  by (cases c) (auto simp: create_graph_runs run_graph_runs split: option.splits if_splits)

lemma exec_calls_dom_runs:
  "dom (runs (exec_calls eng cs)) = dom (runs eng) \<union> created_runs eng cs"
proof (induction cs arbitrary: eng)
  case Nil
  then show ?case by simp
next
  case (Cons c cs)
  have "dom (runs (exec_calls eng (c # cs))) =
          dom (runs (exec_call eng c)) \<union> created_runs (exec_call eng c) cs"
    using Cons.IH[of "exec_call eng c"] by simp
  also have "\<dots> = dom (runs eng) \<union> created_runs eng [c] \<union> created_runs (exec_call eng c) cs"
    by (simp add: exec_call_dom_runs)
  also have "\<dots> = dom (runs eng) \<union> created_runs eng (c # cs)"
    by (cases c) auto
  finally show ?case .
qed

lemma exec_calls_runs_other:
  "x \<notin> drawn_run_ids cs \<Longrightarrow> runs (exec_calls eng cs) x = runs eng x"
proof (induction cs arbitrary: eng)
  case Nil
  then show ?case by simp
next
  case (Cons c cs)
  from Cons.prems have a: "x \<notin> drawn_run_ids [c]" and b: "x \<notin> drawn_run_ids cs"
    by (cases c; simp)+
  from Cons.IH[OF b, of "exec_call eng c"] exec_call_runs_other[OF a, of eng]
  show ?case by simp
qed

text \<open>
  Claim C10. Every run created by \<^verbatim>\<open>run_graph\<close> is stored under the id drawn for it
  before the loop and is never removed, so \<^verbatim>\<open>get_run\<close> with that id succeeds right after
  the call and after any further calls on the engine. Every run \<^verbatim>\<open>run_graph\<close> returns is
  completed or failed and is that stored run: \<^verbatim>\<open>get_run\<close> returns that same run (the stored
  run is unchanged as long as no later run is stored under the same id). On an engine
  that started empty, \<^verbatim>\<open>get_run\<close> fails exactly for the ids under which no run was ever
  created, and it fails with the \<^verbatim>\<open>KeyError\<close> for that id.
\<close>

theorem C10_runs_are_kept:
  "(\<forall>g. graphs eng gid = Some g \<longrightarrow>
      (\<exists>r. get_run (fst (run_graph eng gid init rid)) rid = Inr r \<and> id_r r = rid \<and>
           (\<forall>r'. snd (run_graph eng gid init rid) = Inr r' \<longrightarrow>
              r' = r \<and> (status r = Completed \<or> status r = Failed)) \<and>
           (\<forall>cs. \<exists>r'. get_run (exec_calls (fst (run_graph eng gid init rid)) cs) rid = Inr r') \<and>
           (\<forall>cs. rid \<notin> drawn_run_ids cs \<longrightarrow>
              get_run (exec_calls (fst (run_graph eng gid init rid)) cs) rid = Inr r))) \<and>
   (\<forall>cs x. (\<exists>e. get_run (exec_calls (new_engine reg) cs) x = Inl e) \<longleftrightarrow>
            x \<notin> created_runs (new_engine reg) cs) \<and>
   (\<forall>x e. get_run eng x = Inl e \<longrightarrow> e = KeyError_run x \<and> runs eng x = None)"
proof -
  have known: "\<exists>r. get_run (fst (run_graph eng gid init rid)) rid = Inr r \<and> id_r r = rid \<and>
           (\<forall>r'. snd (run_graph eng gid init rid) = Inr r' \<longrightarrow>
              r' = r \<and> (status r = Completed \<or> status r = Failed)) \<and>
           (\<forall>cs. \<exists>r'. get_run (exec_calls (fst (run_graph eng gid init rid)) cs) rid = Inr r') \<and>
           (\<forall>cs. rid \<notin> drawn_run_ids cs \<longrightarrow>
              get_run (exec_calls (fst (run_graph eng gid init rid)) cs) rid = Inr r)"
    if g: "graphs eng gid = Some g" for g
  proof -
    let ?r = "finish g (loop_of eng g gid init rid)"
    let ?E = "fst (run_graph eng gid init rid)"
    have stored: "runs ?E rid = Some ?r"
      using g by (rule run_graph_stored)
    have idr: "id_r ?r = rid"
      using loop_of_fields[of eng g gid init rid] by (simp add: finish_fields)
    have ret: "r' = ?r \<and> (status ?r = Completed \<or> status ?r = Failed)"
      if "snd (run_graph eng gid init rid) = Inr r'" for r'
      using run_graph_returned[OF g that] run_graph_returned_status[OF g that] by auto
    have later: "\<exists>r'. get_run (exec_calls ?E cs) rid = Inr r'" for cs
    proof -
      from stored have "rid \<in> dom (runs ?E)" by blast
      then have "rid \<in> dom (runs (exec_calls ?E cs))"
        by (simp add: exec_calls_dom_runs)
      then show ?thesis by (auto simp: get_run_iff)
    qed
    have same: "get_run (exec_calls ?E cs) rid = Inr ?r" if "rid \<notin> drawn_run_ids cs" for cs
      using exec_calls_runs_other[OF that, of ?E] stored by (simp add: get_run_iff)
    have now: "get_run ?E rid = Inr ?r"
      using stored by (simp add: get_run_iff)
    from now idr ret later same show ?thesis by blast
  qed
  have fresh: "(\<exists>e. get_run (exec_calls (new_engine reg) cs) x = Inl e) \<longleftrightarrow>
            x \<notin> created_runs (new_engine reg) cs" for cs x
  proof -
    have "dom (runs (exec_calls (new_engine reg) cs)) = created_runs (new_engine reg) cs"
      by (simp add: exec_calls_dom_runs new_engine_def)
    then have "runs (exec_calls (new_engine reg) cs) x = None \<longleftrightarrow>
                 x \<notin> created_runs (new_engine reg) cs"
      by (metis domIff)
    then show ?thesis by (simp add: get_run_iff)
  qed
  have nf: "e = KeyError_run x \<and> runs eng x = None" if "get_run eng x = Inl e" for x e
    using that by (simp add: get_run_iff)
  from known fresh nf show ?thesis by blast
qed

text \<open>Claim C10 at a run of \<open>engine_end_then_b\<close>, read back at once and after a second run.\<close>

theorem C10_runs_are_kept_witness:
  "graphs engine_end_then_b ''G'' = Some graph_end_then_b \<and>
   get_run (fst (run_graph engine_end_then_b ''G'' [] ''R'')) ''R'' =
     snd (run_graph engine_end_then_b ''G'' [] ''R'') \<and>
   get_run (exec_calls (fst (run_graph engine_end_then_b ''G'' [] ''R''))
              [Run_graph ''G'' [(''x'', PInt 1)] ''R2'', Get_run ''R'']) ''R'' =
     snd (run_graph engine_end_then_b ''G'' [] ''R'') \<and>
   get_run engine_end_then_b ''R'' = Inl (KeyError_run ''R'')"
proof -
  let ?E = "fst (run_graph engine_end_then_b ''G'' [] ''R'')"
  let ?cs = "[Run_graph ''G'' [(''x'', PInt 1)] ''R2'', Get_run ''R'']"
  have g: "graphs engine_end_then_b ''G'' = Some graph_end_then_b"
    by (simp add: example_defs engine_defs)
  have d: "''R'' \<notin> drawn_run_ids ?cs" by simp
  have ev: "snd (run_graph engine_end_then_b ''G'' [] ''R'') =
              Inr (finish graph_end_then_b (loop_of engine_end_then_b graph_end_then_b ''G'' [] ''R''))"
    using g by (simp add: run_graph_known loop_of_def outcome_def example_defs engine_defs
                  run_loop.simps)
  note C10_runs_are_kept[of engine_end_then_b "''G''" "[]" "''R''" example_registry,
         THEN conjunct1, rule_format, OF g]
  then obtain r0 where now0: "get_run ?E ''R'' = Inr r0"
    and ret: "\<forall>r'. snd (run_graph engine_end_then_b ''G'' [] ''R'') = Inr r' \<longrightarrow>
                r' = r0 \<and> (status r0 = Completed \<or> status r0 = Failed)"
    and later0: "\<forall>cs. ''R'' \<notin> drawn_run_ids cs \<longrightarrow> get_run (exec_calls ?E cs) ''R'' = Inr r0"
    by blast
  from ret ev obtain r where r: "snd (run_graph engine_end_then_b ''G'' [] ''R'') = Inr r"
    and eq: "r = r0" by blast
  from now0 eq have now: "get_run ?E ''R'' = Inr r" by simp
  from later0 eq have
    later: "\<forall>cs. ''R'' \<notin> drawn_run_ids cs \<longrightarrow> get_run (exec_calls ?E cs) ''R'' = Inr r"
    by simp
  from later d have l: "get_run (exec_calls ?E ?cs) ''R'' = Inr r" by blast
  have n: "get_run engine_end_then_b ''R'' = Inl (KeyError_run ''R'')"
    by (simp add: example_defs engine_defs)
  from g r now l n show ?thesis by simp
qed

end
